theory Spec2Isabelle
  imports Complex_Main "HOL-Library.Sublist"
begin

chapter \<open>The Pile deduplication pipeline\<close>

text \<open>
  A shallow embedding of the scripts \<^verbatim>\<open>generate_minhashes.py\<close>, \<^verbatim>\<open>dedupe.py\<close>,
  \<^verbatim>\<open>working_with_duplicates.py\<close> and \<^verbatim>\<open>yield_deduped_pile.py\<close>. Files on disk are
  explicit state, exceptions are values, loops are recursive functions. The third-party
  libraries the scripts call (nltk, datasketch, glob, pickle) are not part of the repository:
  the tokenizer, the base hash, the permutations, the band parameters and the directory
  listing are parameters, and the MinHash and LSH operations follow sections 4.2 and 4.3 of
  the specification.
\<close>

section \<open>Exceptions and files\<close>

datatype error =
    TypeError | ValueError | IndexError | AssertionError | ZeroDivisionError
  | UnpicklingError | RuntimeError | LookupError | MemoryError | FileNotFoundError

text \<open>
  \<^verbatim>\<open>pickle.dump(obj, open(path, "wb"))\<close> first creates or truncates the file and then writes
  it. A process killed in between leaves \<open>Truncated\<close> under that name.
\<close>

datatype 'a contents = Truncated | Complete 'a

text \<open>A sequence of filesystem effects, and the states a kill can leave behind: the state
  after the first \<open>k\<close> effects, for every \<open>k\<close>.\<close>

definition run_steps :: "'s \<Rightarrow> ('s \<Rightarrow> 's) list \<Rightarrow> 's" where
  "run_steps s fs = foldl (\<lambda>s f. f s) s fs"

definition crash_states :: "'s \<Rightarrow> ('s \<Rightarrow> 's) list \<Rightarrow> 's list" where
  "crash_states s fs = map (\<lambda>k. run_steps s (take k fs)) [0..<Suc (length fs)]"

section \<open>generate\_minhashes.py: shingles and signatures\<close>

type_synonym minhash = "nat list"

text \<open>\<^verbatim>\<open>nltk.word_tokenize\<close> is a parameter; it may raise.\<close>

type_synonym tokenizer = "string \<Rightarrow> error + string list"

definition megabyte :: nat where
  "megabyte = 1024 * 1024"

text \<open>Modelled from the spec: \<^verbatim>\<open>nltk.util.ngrams(sequence, n)\<close>, a library function, gives
  the windows of \<open>n\<close> consecutive tokens (section 4.1: all 5-grams of consecutive tokens).\<close>

definition ngrams :: "'a list \<Rightarrow> nat \<Rightarrow> 'a list list" where
  "ngrams sequence n = map (\<lambda>i. take n (drop i sequence)) [0..<Suc (length sequence) - n]"

fun join :: "string \<Rightarrow> string list \<Rightarrow> string" where
  "join sep [] = []"
| "join sep [x] = x"
| "join sep (x # y # ys) = x @ sep @ join sep (y # ys)"

definition extract_ngrams :: "tokenizer \<Rightarrow> string \<Rightarrow> nat \<Rightarrow> error + string list" where
  "extract_ngrams word_tokenize data num =
     (case word_tokenize data of
        Inl ex \<Rightarrow> Inl ex
      | Inr tokens \<Rightarrow> Inr (map (join '' '') (ngrams tokens num)))"

text \<open>\<^verbatim>\<open>math.ceil(len(document) / slice_size)\<close> is written as a ceiling division, and
  \<^verbatim>\<open>document[start_index:end_index]\<close> as \<open>take\<close> after \<open>drop\<close>.\<close>

definition slice_document :: "string \<Rightarrow> string list" where
  "slice_document document =
     (if length document > megabyte then
        (let slice_size = megabyte;
             num_slices = (length document + slice_size - 1) div slice_size
         in map (\<lambda>i. let start_index = slice_size * i;
                          end_index = min (start_index + slice_size) (length document)
                      in take (end_index - start_index) (drop start_index document))
              [0..<num_slices])
      else [document])"

text \<open>
  Modelled from the spec: the MinHash of the datasketch library, which is not part of the
  repository, as section 4.2 of the specification describes it: \<open>P\<close> pairs
  \<open>(a, b)\<close> fixed at startup, a base hash, the modulus \<open>2^61 - 1\<close>; every entry starts at
  \<open>M - 1\<close> and an update takes the minimum with the permuted hash of the shingle.
\<close>

definition mersenne_prime :: nat where
  "mersenne_prime = 2 ^ 61 - 1"

definition MinHash :: "(nat \<times> nat) list \<Rightarrow> minhash" where
  "MinHash permutations = replicate (length permutations) (mersenne_prime - 1)"

definition update :: "(nat \<times> nat) list \<Rightarrow> (string \<Rightarrow> nat) \<Rightarrow> string \<Rightarrow> minhash \<Rightarrow> minhash" where
  "update permutations hashfunc g hashvalues =
     map (\<lambda>((a, b), hv). min hv ((a * hashfunc g + b) mod mersenne_prime))
       (zip permutations hashvalues)"

text \<open>A Python \<^verbatim>\<open>set\<close> of shingles is a duplicate-free list; \<^verbatim>\<open>set.update\<close> adds the
  elements that are new.\<close>

definition set_update :: "'a list \<Rightarrow> 'a list \<Rightarrow> 'a list" where
  "set_update s xs = fold List.insert xs s"

fun five_grams_of :: "tokenizer \<Rightarrow> string list \<Rightarrow> string list \<Rightarrow> error + string list" where
  "five_grams_of word_tokenize five_gram_set [] = Inr five_gram_set"
| "five_grams_of word_tokenize five_gram_set (a_slice # slices) =
     (case extract_ngrams word_tokenize a_slice 5 of
        Inl ex \<Rightarrow> Inl ex
      | Inr n_grams \<Rightarrow> five_grams_of word_tokenize (set_update five_gram_set n_grams) slices)"

datatype log_level = INFO | WARNING

type_synonym log_record = "log_level \<times> error \<times> nat"

text \<open>\<open>generate_minhash\<close> returns what it logged and its result: the hash values of the
  \<^verbatim>\<open>LeanMinHash\<close>, or \<^verbatim>\<open>None\<close> when an exception was caught.\<close>

definition generate_minhash ::
  "tokenizer \<Rightarrow> (nat \<times> nat) list \<Rightarrow> (string \<Rightarrow> nat) \<Rightarrow> string \<Rightarrow> log_record list \<times> minhash option" where
  "generate_minhash word_tokenize permutations hashfunc document =
     (case five_grams_of word_tokenize [] (slice_document document) of
        Inl ex \<Rightarrow> ([(INFO, ex, length document)], None)
      | Inr five_gram_set \<Rightarrow>
          ([], Some (fold (update permutations hashfunc) five_gram_set (MinHash permutations))))"


text \<open>A tokenizer for the examples: split at spaces. On lower-case words separated by spaces
  \<^verbatim>\<open>nltk.word_tokenize\<close> returns the same tokens.\<close>

fun words_from :: "string \<Rightarrow> string \<Rightarrow> string list" where
  "words_from w [] = (if w = [] then [] else [w])"
| "words_from w (c # cs) =
     (if c = CHR '' '' then (if w = [] then words_from [] cs else w # words_from [] cs)
      else words_from (w @ [c]) cs)"

definition split_spaces :: tokenizer where
  "split_spaces data = Inr (words_from [] data)"


definition ten_permutations :: "(nat \<times> nat) list" where
  "ten_permutations = map (\<lambda>i. (Suc i, i)) [0..<10]"

section \<open>generate\_minhashes.py: the batch commit and the recovery\<close>

type_synonym minhashes_and_meta = "(nat \<times> minhash option) list"

record working_directory =
  checkpoint_file :: "nat contents option"
  checkpoint_temp_file :: "nat contents option"
  checkpoint_old_file :: "nat contents option"
  transaction_lock :: bool
  minhashes_file :: "nat \<Rightarrow> minhashes_and_meta contents option"

definition touch_lock :: "working_directory \<Rightarrow> working_directory" where
  "touch_lock wd = wd\<lparr>transaction_lock := True\<rparr>"

definition open_minhashes_file :: "nat \<Rightarrow> working_directory \<Rightarrow> working_directory" where
  "open_minhashes_file start_offset wd =
     wd\<lparr>minhashes_file := (minhashes_file wd)(start_offset \<mapsto> Truncated)\<rparr>"

definition dump_minhashes_file ::
  "nat \<Rightarrow> minhashes_and_meta \<Rightarrow> working_directory \<Rightarrow> working_directory" where
  "dump_minhashes_file start_offset data wd =
     wd\<lparr>minhashes_file := (minhashes_file wd)(start_offset \<mapsto> Complete data)\<rparr>"

definition open_checkpoint_temp :: "working_directory \<Rightarrow> working_directory" where
  "open_checkpoint_temp wd = wd\<lparr>checkpoint_temp_file := Some Truncated\<rparr>"

definition dump_checkpoint_temp :: "nat \<Rightarrow> working_directory \<Rightarrow> working_directory" where
  "dump_checkpoint_temp last_offset wd = wd\<lparr>checkpoint_temp_file := Some (Complete last_offset)\<rparr>"

text \<open>\<^verbatim>\<open>os.rename\<close> replaces its target (POSIX).\<close>

definition rename_checkpoint_to_old :: "working_directory \<Rightarrow> working_directory" where
  "rename_checkpoint_to_old wd =
     (if checkpoint_file wd \<noteq> None
      then wd\<lparr>checkpoint_old_file := checkpoint_file wd, checkpoint_file := None\<rparr>
      else wd)"

definition rename_temp_to_checkpoint :: "working_directory \<Rightarrow> working_directory" where
  "rename_temp_to_checkpoint wd =
     wd\<lparr>checkpoint_file := checkpoint_temp_file wd, checkpoint_temp_file := None\<rparr>"

definition remove_lock :: "working_directory \<Rightarrow> working_directory" where
  "remove_lock wd = wd\<lparr>transaction_lock := False\<rparr>"

text \<open>The filesystem effects of the transaction of \<open>process_batch\<close>, in program order, for a
  batch that is not empty.\<close>

definition commit_steps ::
  "(nat \<times> string) list \<Rightarrow> minhash option list \<Rightarrow> (working_directory \<Rightarrow> working_directory) list" where
  "commit_steps batch minhashes =
     (let start_offset = fst (hd batch);
          last_offset = fst (last batch);
          minhashes_and_meta = zip (map fst batch) minhashes
      in [touch_lock,
          open_minhashes_file start_offset,
          dump_minhashes_file start_offset minhashes_and_meta,
          open_checkpoint_temp,
          dump_checkpoint_temp last_offset,
          rename_checkpoint_to_old,
          rename_temp_to_checkpoint,
          remove_lock])"

text \<open>\<open>pool.map\<close> returns the results of the tasks in task order. On an empty batch
  \<^verbatim>\<open>batch[0]\<close> raises after the lock was touched. The handling of SIGINT around the
  transaction and the optional rsync to a backup directory after it leave the working
  directory as it is and are left out.\<close>

definition process_batch ::
  "tokenizer \<Rightarrow> (nat \<times> nat) list \<Rightarrow> (string \<Rightarrow> nat) \<Rightarrow> (nat \<times> string) list
     \<Rightarrow> working_directory \<Rightarrow> error option \<times> log_record list \<times> working_directory" where
  "process_batch word_tokenize permutations hashfunc batch wd =
     (let results = map (\<lambda>(offset, document).
                       generate_minhash word_tokenize permutations hashfunc document) batch;
          minhashes = map snd results;
          logged = concat (map fst results)
      in if batch = [] then (Some IndexError, logged, touch_lock wd)
         else (None, logged, run_steps wd (commit_steps batch minhashes)))"

text \<open>The start of \<open>generate_minhashes_main\<close>: repair after a crash inside the transaction, then read the
  checkpoint.\<close>

definition recover :: "working_directory \<Rightarrow> working_directory" where
  "recover wd =
     (if transaction_lock wd then
        (let wd1 =
           (if checkpoint_temp_file wd \<noteq> None then
              (let wd2 =
                 (if checkpoint_old_file wd \<noteq> None
                  then wd\<lparr>checkpoint_file := checkpoint_old_file wd, checkpoint_old_file := None\<rparr>
                  else wd)
               in wd2\<lparr>checkpoint_temp_file := None\<rparr>)
            else wd)
         in wd1\<lparr>transaction_lock := False\<rparr>)
      else wd)"

definition checkpoint_offset :: "working_directory \<Rightarrow> error + nat" where
  "checkpoint_offset wd =
     (case checkpoint_file wd of
        None \<Rightarrow> Inr 0
      | Some Truncated \<Rightarrow> Inl UnpicklingError
      | Some (Complete c) \<Rightarrow> Inr (c + 1))"

text \<open>The loop of \<open>generate_minhashes_main\<close> over the corpus. The source fixes \<open>batch_size = 100000\<close>; it is a
  parameter here so that small runs can be evaluated.\<close>

fun generate_minhashes_loop ::
  "tokenizer \<Rightarrow> (nat \<times> nat) list \<Rightarrow> (string \<Rightarrow> nat) \<Rightarrow> nat \<Rightarrow> nat \<Rightarrow> (nat \<times> string) list
     \<Rightarrow> (nat \<times> string) list \<Rightarrow> working_directory \<Rightarrow> error option \<times> log_record list \<times> working_directory" where
  "generate_minhashes_loop tk ps hf batch_size ckpt [] batch wd =
     (if length batch \<noteq> 0 then process_batch tk ps hf batch wd else (None, [], wd))"
| "generate_minhashes_loop tk ps hf batch_size ckpt ((offset, document) # pile) batch wd =
     (if offset < ckpt then generate_minhashes_loop tk ps hf batch_size ckpt pile batch wd
      else if length (batch @ [(offset, document)]) = batch_size then
        (case process_batch tk ps hf (batch @ [(offset, document)]) wd of
           (Some ex, logged, wd') \<Rightarrow> (Some ex, logged, wd')
         | (None, logged, wd') \<Rightarrow>
             (case generate_minhashes_loop tk ps hf batch_size ckpt pile [] wd' of
                (r, logged', wd'') \<Rightarrow> (r, logged @ logged', wd'')))
      else generate_minhashes_loop tk ps hf batch_size ckpt pile (batch @ [(offset, document)]) wd)"

definition generate_minhashes_main ::
  "tokenizer \<Rightarrow> (nat \<times> nat) list \<Rightarrow> (string \<Rightarrow> nat) \<Rightarrow> nat \<Rightarrow> (nat \<times> string) list
     \<Rightarrow> working_directory \<Rightarrow> error option \<times> log_record list \<times> working_directory" where
  "generate_minhashes_main tk ps hf batch_size pile wd =
     (case checkpoint_offset (recover wd) of
        Inl ex \<Rightarrow> (Some ex, [], recover wd)
      | Inr ckpt \<Rightarrow> generate_minhashes_loop tk ps hf batch_size ckpt pile [] (recover wd))"

text \<open>A working directory between two transactions: no lock, no temporary checkpoint, a
  complete checkpoint \<open>c\<close> (or none) and an older complete checkpoint \<open>c_old\<close> (or none).\<close>

definition at_or_below :: "nat option \<Rightarrow> nat option \<Rightarrow> bool" where
  "at_or_below a b = (case a of None \<Rightarrow> True | Some x \<Rightarrow> (case b of None \<Rightarrow> False | Some y \<Rightarrow> x \<le> y))"

definition beyond :: "nat \<Rightarrow> nat option \<Rightarrow> bool" where
  "beyond n c = (case c of None \<Rightarrow> True | Some x \<Rightarrow> x < n)"

definition committed :: "working_directory \<Rightarrow> nat option" where
  "committed wd = (case checkpoint_file wd of Some (Complete c) \<Rightarrow> Some c | _ \<Rightarrow> None)"

definition quiescent :: "working_directory \<Rightarrow> nat option \<Rightarrow> nat option \<Rightarrow> bool" where
  "quiescent wd c c_old =
     (\<not> transaction_lock wd \<and> checkpoint_temp_file wd = None
      \<and> checkpoint_file wd = map_option Complete c
      \<and> checkpoint_old_file wd = map_option Complete c_old
      \<and> at_or_below c_old c)"

definition empty_directory :: working_directory where
  "empty_directory =
     \<lparr>checkpoint_file = None, checkpoint_temp_file = None, checkpoint_old_file = None,
      transaction_lock = False, minhashes_file = (\<lambda>start. None)\<rparr>"


text \<open>A directory after several committed batches (checkpoint 9, older checkpoint 4) and the
  next batch, for the examples.\<close>

definition example_directory :: working_directory where
  "example_directory =
     \<lparr>checkpoint_file = Some (Complete 9), checkpoint_temp_file = None,
      checkpoint_old_file = Some (Complete 4), transaction_lock = False,
      minhashes_file = (\<lambda>start. None)\<rparr>"

definition example_batch :: "(nat \<times> string) list" where
  "example_batch = [(10, ''a b c d e f''), (11, ''g h i j k l'')]"

section \<open>dedupe.py: the LSH index and the dedupe pass\<close>

text \<open>
  Modelled from the spec: the \<^verbatim>\<open>MinHashLSH\<close> of the datasketch library, which is not part
  of the repository, as section 4.3 of the specification describes it: the
  signature is cut into \<open>bands\<close> bands of \<open>rows\<close> rows, a bucket is keyed by the band index and
  the hash of the band, and \<open>keys\<close> remembers the band hashes of every inserted offset so that
  \<^verbatim>\<open>remove(key)\<close> finds its buckets. \<^verbatim>\<open>MinHashLSH(threshold, num_perm=10)\<close> chooses the bands
  and rows by a numerical integration; they are parameters here, and so is the band hash.
\<close>

record MinHashLSH =
  num_perm :: nat
  bands :: nat
  rows :: nat
  band_hash :: "nat list \<Rightarrow> nat"
  hashtables :: "nat \<times> nat \<Rightarrow> nat set option"
  keys :: "nat \<Rightarrow> nat list option"

definition new_MinHashLSH :: "nat \<Rightarrow> nat \<times> nat \<Rightarrow> (nat list \<Rightarrow> nat) \<Rightarrow> MinHashLSH" where
  "new_MinHashLSH n params H =
     \<lparr>num_perm = n, bands = fst params, rows = snd params, band_hash = H,
      hashtables = (\<lambda>bk. None), keys = (\<lambda>key. None)\<rparr>"

definition Hs :: "MinHashLSH \<Rightarrow> minhash \<Rightarrow> nat list" where
  "Hs lsh m = map (\<lambda>i. band_hash lsh (take (rows lsh) (drop (i * rows lsh) m))) [0..<bands lsh]"

definition bucket :: "('k \<Rightarrow> nat set option) \<Rightarrow> 'k \<Rightarrow> nat set" where
  "bucket t bk = (case t bk of None \<Rightarrow> {} | Some s \<Rightarrow> s)"

definition insert_val :: "nat \<Rightarrow> nat \<times> nat \<Rightarrow> (nat \<times> nat \<Rightarrow> nat set option) \<Rightarrow> (nat \<times> nat \<Rightarrow> nat set option)" where
  "insert_val key bk t = t(bk \<mapsto> Set.insert key (bucket t bk))"

text \<open>\<^verbatim>\<open>remove_val\<close> followed by the removal of a bucket that became empty.\<close>

definition remove_val :: "nat \<Rightarrow> nat \<times> nat \<Rightarrow> (nat \<times> nat \<Rightarrow> nat set option) \<Rightarrow> (nat \<times> nat \<Rightarrow> nat set option)" where
  "remove_val key bk t =
     (if bucket t bk - {key} = {} then t(bk := None) else t(bk \<mapsto> bucket t bk - {key}))"

text \<open>A minhash read from a batch file is the hash values of a \<^verbatim>\<open>LeanMinHash\<close>, or \<^verbatim>\<open>None\<close>
  (what \<open>generate_minhash\<close> stored for a failed document), on which \<^verbatim>\<open>len\<close> raises.\<close>

definition lsh_insert :: "MinHashLSH \<Rightarrow> nat \<Rightarrow> minhash option \<Rightarrow> error + MinHashLSH" where
  "lsh_insert lsh key minhash =
     (case minhash of
        None \<Rightarrow> Inl TypeError
      | Some m \<Rightarrow>
          if length m \<noteq> num_perm lsh then Inl ValueError
          else if keys lsh key \<noteq> None then Inl ValueError
          else Inr (lsh\<lparr>keys := (keys lsh)(key \<mapsto> Hs lsh m),
                        hashtables := fold (insert_val key) (zip [0..<bands lsh] (Hs lsh m))
                                        (hashtables lsh)\<rparr>))"

definition lsh_query :: "MinHashLSH \<Rightarrow> minhash option \<Rightarrow> error + nat set" where
  "lsh_query lsh minhash =
     (case minhash of
        None \<Rightarrow> Inl TypeError
      | Some m \<Rightarrow>
          if length m \<noteq> num_perm lsh then Inl ValueError
          else Inr (fold (\<lambda>bk candidates. candidates \<union> bucket (hashtables lsh) bk)
                      (zip [0..<bands lsh] (Hs lsh m)) {}))"

definition lsh_remove :: "MinHashLSH \<Rightarrow> nat \<Rightarrow> error + MinHashLSH" where
  "lsh_remove lsh key =
     (case keys lsh key of
        None \<Rightarrow> Inl ValueError
      | Some hs \<Rightarrow>
          Inr (lsh\<lparr>hashtables := fold (remove_val key) (zip [0..<bands lsh] hs) (hashtables lsh),
                    keys := (keys lsh)(key := None)\<rparr>))"

text \<open>Two signatures collide when they agree on the hash of at least one band.\<close>

definition collide :: "MinHashLSH \<Rightarrow> minhash \<Rightarrow> minhash \<Rightarrow> bool" where
  "collide lsh m m' = (\<exists>i \<in> set [0..<bands lsh]. Hs lsh m ! i = Hs lsh m' ! i)"

type_synonym duplicate = "nat \<times> nat set"

text \<open>What the pass does to the duplicates directory, in order: a batch of duplicates dumped
  (\<^verbatim>\<open>duplicates_NNNN.pkl\<close> and, with the offsets alone, \<^verbatim>\<open>duplicates_smol_NNNN.pkl\<close>), and a
  call of \<open>ensure_disk_space\<close> with the free and total space it read.\<close>

datatype event = Save_duplicate_batch nat "duplicate list" | Ensure_disk_space "nat \<times> nat"

record dedupe_state =
  lsh :: MinHashLSH
  duplicates :: "duplicate list"
  batch_number :: nat
  duplicate_count :: nat
  events :: "event list"
  lsh_pkl :: "MinHashLSH contents option"
  duplicate_statistics :: "nat option"
  dedupe_done :: bool

text \<open>\<^verbatim>\<open>assert((usage.free / usage.total) > 0.05)\<close>; the quotient of the two integers is taken
  exactly. The usage is read anew at every call: it is a function of the number of the batch
  that comes next.\<close>

definition ensure_disk_space :: "nat \<times> nat \<Rightarrow> error option" where
  "ensure_disk_space usage =
     (if snd usage = 0 then Some ZeroDivisionError
      else if real (fst usage) / real (snd usage) > 5 / 100 then None
      else Some AssertionError)"

fun insert_all :: "MinHashLSH \<Rightarrow> (nat \<times> minhash option) list \<Rightarrow> error + MinHashLSH" where
  "insert_all l [] = Inr l"
| "insert_all l ((offset, minhash) # rest) =
     (case lsh_insert l offset minhash of
        Inl ex \<Rightarrow> Inl ex
      | Inr l' \<Rightarrow> insert_all l' rest)"

definition open_lsh_pkl :: "dedupe_state \<Rightarrow> dedupe_state" where
  "open_lsh_pkl st = st\<lparr>lsh_pkl := Some Truncated\<rparr>"

definition dump_lsh_pkl :: "MinHashLSH \<Rightarrow> dedupe_state \<Rightarrow> dedupe_state" where
  "dump_lsh_pkl l st = st\<lparr>lsh_pkl := Some (Complete l)\<rparr>"

text \<open>The filesystem effects of \<^verbatim>\<open>pickle.dump(lsh, open(lsh_path, "wb"))\<close>.\<close>

definition lsh_dump_steps :: "MinHashLSH \<Rightarrow> (dedupe_state \<Rightarrow> dedupe_state) list" where
  "lsh_dump_steps l = [open_lsh_pkl, dump_lsh_pkl l]"

definition load_or_create_lsh ::
  "nat \<times> nat \<Rightarrow> (nat list \<Rightarrow> nat) \<Rightarrow> (nat \<times> minhash option) list \<Rightarrow> dedupe_state
     \<Rightarrow> error option \<times> dedupe_state" where
  "load_or_create_lsh params H minhashes st =
     (case lsh_pkl st of
        Some Truncated \<Rightarrow> (Some UnpicklingError, st)
      | Some (Complete l) \<Rightarrow> (None, st\<lparr>lsh := l\<rparr>)
      | None \<Rightarrow>
          (case insert_all (new_MinHashLSH 10 params H) minhashes of
             Inl ex \<Rightarrow> (Some ex, st)
           | Inr l \<Rightarrow> (None, run_steps (st\<lparr>lsh := l\<rparr>) (lsh_dump_steps l))))"

definition save_duplicate_batch :: "dedupe_state \<Rightarrow> dedupe_state" where
  "save_duplicate_batch st =
     st\<lparr>events := events st @ [Save_duplicate_batch (batch_number st) (duplicates st)]\<rparr>"

text \<open>The body of the loop over the query results when an offset other than the current one is
  found: append, count, remove the current offset, break.\<close>

definition record_duplicate :: "nat \<Rightarrow> nat set \<Rightarrow> dedupe_state \<Rightarrow> error option \<times> dedupe_state" where
  "record_duplicate offset results st =
     (let st1 = st\<lparr>duplicates := duplicates st @ [(offset, results)],
                   duplicate_count := duplicate_count st + 1\<rparr>
      in case lsh_remove (lsh st1) offset of
           Inl ex \<Rightarrow> (Some ex, st1)
         | Inr l' \<Rightarrow> (None, st1\<lparr>lsh := l'\<rparr>))"

definition flush_full_batch :: "nat \<Rightarrow> (nat \<Rightarrow> nat \<times> nat) \<Rightarrow> dedupe_state \<Rightarrow> error option \<times> dedupe_state" where
  "flush_full_batch save_frequency disk_usage st =
     (if length (duplicates st) = save_frequency then
        (let st1 = save_duplicate_batch st;
             st2 = st1\<lparr>batch_number := batch_number st1 + 1, duplicates := []\<rparr>
         in (ensure_disk_space (disk_usage (batch_number st2)),
             st2\<lparr>events := events st2 @ [Ensure_disk_space (disk_usage (batch_number st2))]\<rparr>))
      else (None, st))"

definition dedupe_step ::
  "nat \<Rightarrow> (nat \<Rightarrow> nat \<times> nat) \<Rightarrow> nat \<times> minhash option \<Rightarrow> dedupe_state \<Rightarrow> error option \<times> dedupe_state" where
  "dedupe_step save_frequency disk_usage om st =
     (case lsh_query (lsh st) (snd om) of
        Inl ex \<Rightarrow> (Some ex, st)
      | Inr results \<Rightarrow>
          (case (if \<exists>found_offset \<in> results. found_offset \<noteq> fst om
                 then record_duplicate (fst om) results st else (None, st)) of
             (Some ex, st1) \<Rightarrow> (Some ex, st1)
           | (None, st1) \<Rightarrow> flush_full_batch save_frequency disk_usage st1))"

fun dedupe_loop ::
  "nat \<Rightarrow> (nat \<Rightarrow> nat \<times> nat) \<Rightarrow> (nat \<times> minhash option) list \<Rightarrow> dedupe_state \<Rightarrow> error option \<times> dedupe_state" where
  "dedupe_loop save_frequency disk_usage [] st = (None, st)"
| "dedupe_loop save_frequency disk_usage (om # rest) st =
     (case dedupe_step save_frequency disk_usage om st of
        (Some ex, st') \<Rightarrow> (Some ex, st')
      | (None, st') \<Rightarrow> dedupe_loop save_frequency disk_usage rest st')"

text \<open>\<open>main\<close> of dedupe.py. The source fixes \<open>save_frequency = 1000000\<close>; it is a parameter here
  so that small runs can be evaluated.\<close>

definition dedupe_main ::
  "nat \<Rightarrow> (nat \<Rightarrow> nat \<times> nat) \<Rightarrow> nat \<times> nat \<Rightarrow> (nat list \<Rightarrow> nat) \<Rightarrow> (nat \<times> minhash option) list
     \<Rightarrow> dedupe_state \<Rightarrow> error option \<times> dedupe_state" where
  "dedupe_main save_frequency disk_usage params H minhashes dir =
     (if dedupe_done dir then (None, dir)
      else
        (case load_or_create_lsh params H minhashes dir of
           (Some ex, st) \<Rightarrow> (Some ex, st)
         | (None, st) \<Rightarrow>
             (case dedupe_loop save_frequency disk_usage minhashes
                     (st\<lparr>duplicates := [], batch_number := 0, duplicate_count := 0\<rparr>) of
                (Some ex, st') \<Rightarrow> (Some ex, st')
              | (None, st') \<Rightarrow>
                  (let st'' = (if length (duplicates st') \<noteq> 0 then save_duplicate_batch st' else st')
                   in (None, st''\<lparr>duplicate_statistics := Some (duplicate_count st''),
                                  dedupe_done := True\<rparr>)))))"

text \<open>A duplicates directory before the first run, and the records a run wrote.\<close>

definition fresh_directory :: dedupe_state where
  "fresh_directory =
     \<lparr>lsh = new_MinHashLSH 10 (0, 0) (\<lambda>band. 0), duplicates = [], batch_number = 0,
      duplicate_count = 0, events = [], lsh_pkl = None, duplicate_statistics = None,
      dedupe_done = False\<rparr>"

fun saved :: "event \<Rightarrow> duplicate list" where
  "saved (Save_duplicate_batch n ds) = ds"
| "saved (Ensure_disk_space usage) = []"

definition emitted :: "dedupe_state \<Rightarrow> duplicate list" where
  "emitted st = concat (map saved (events st))"

text \<open>The stream \<open>yield_minhashes\<close> delivers after a generation without failed documents:
  every entry holds a signature. It is well formed when the offsets increase strictly and
  every signature has \<open>num_perm = 10\<close> values.\<close>

definition stream :: "(nat \<times> minhash) list \<Rightarrow> (nat \<times> minhash option) list" where
  "stream sigs = map (\<lambda>om. (fst om, Some (snd om))) sigs"

definition well_formed :: "(nat \<times> minhash) list \<Rightarrow> bool" where
  "well_formed sigs = (sorted_wrt (<) (map fst sigs) \<and> list_all (\<lambda>om. length (snd om) = 10) sigs)"

text \<open>The records of a stream in which every document is compared with the documents from it
  on: a document with a colliding later document gets a record, holding the offsets of the
  colliding documents from it on.\<close>

fun expected :: "MinHashLSH \<Rightarrow> (nat \<times> minhash) list \<Rightarrow> duplicate list" where
  "expected l [] = []"
| "expected l (om # rest) =
     (if \<exists>om' \<in> set rest. collide l (snd om) (snd om')
      then (fst om, set (map fst (filter (\<lambda>om'. collide l (snd om) (snd om')) (om # rest))))
             # expected l rest
      else expected l rest)"

definition records_for :: "nat \<Rightarrow> duplicate list \<Rightarrow> duplicate list" where
  "records_for offset ds = filter (\<lambda>d. fst d = offset) ds"


text \<open>The index agrees with the band hashes it remembers: an offset is in the bucket of a band
  key exactly when that is one of its band hashes.\<close>

definition index_inv :: "MinHashLSH \<Rightarrow> bool" where
  "index_inv l =
     ((\<forall>i H key. key \<in> bucket (hashtables l) (i, H)
          \<longleftrightarrow> (\<exists>hs. keys l key = Some hs \<and> i < bands l \<and> hs ! i = H))
      \<and> (\<forall>key hs. keys l key = Some hs \<longrightarrow> length hs = bands l))"

section \<open>working\_with\_duplicates.py and yield\_deduped\_pile.py: the readers\<close>

text \<open>\<^verbatim>\<open>os.path.join\<close> for a file name.\<close>

definition path_join :: "string \<Rightarrow> string \<Rightarrow> string" where
  "path_join directory name =
     (if directory = [] then name
      else if last directory = CHR ''/'' then directory @ name
      else directory @ ''/'' @ name)"

text \<open>The names \<^verbatim>\<open>*duplicates_*.pkl\<close> matches: something, then \<^verbatim>\<open>duplicates_\<close>, then
  something, then \<^verbatim>\<open>.pkl\<close>; a leading star matches no hidden file.\<close>

definition matches_pattern :: "string \<Rightarrow> bool" where
  "matches_pattern name =
     (\<not> prefix ''.'' name \<and> suffix ''.pkl'' name
      \<and> sublist ''duplicates_'' (take (length name - 4) name))"

text \<open>\<^verbatim>\<open>glob.glob\<close> returns the matching paths in the order in which the operating system
  lists the directory; \<open>listing\<close> is that order.\<close>

definition glob_duplicates :: "string \<Rightarrow> string list \<Rightarrow> string list" where
  "glob_duplicates duplicates_directory listing =
     map (path_join duplicates_directory) (filter matches_pattern listing)"

definition duplicates_files :: "string \<Rightarrow> string list \<Rightarrow> string list" where
  "duplicates_files duplicates_directory listing =
     filter (\<lambda>x. \<not> sublist ''smol'' x) (glob_duplicates duplicates_directory listing)"

text \<open>A generator is the list of what it yields. \<open>pickle_load\<close> gives the records of a file.\<close>

definition yield_duplicates ::
  "(string \<Rightarrow> duplicate list) \<Rightarrow> string list \<Rightarrow> string \<Rightarrow> bool \<Rightarrow> duplicate list" where
  "yield_duplicates pickle_load listing duplicates_directory first_file_only =
     (let files = duplicates_files duplicates_directory listing
      in if first_file_only then (case files of [] \<Rightarrow> [] | file # _ \<Rightarrow> pickle_load file)
         else concat (map pickle_load files))"

text \<open>The reader the specification describes: the same files, opened in filename order.\<close>

definition yield_duplicates_in_filename_order ::
  "(string \<Rightarrow> duplicate list) \<Rightarrow> string list \<Rightarrow> string \<Rightarrow> duplicate list" where
  "yield_duplicates_in_filename_order pickle_load names duplicates_directory =
     concat (map (\<lambda>name. pickle_load (path_join duplicates_directory name)) names)"

definition example_pickles :: "string \<Rightarrow> duplicate list" where
  "example_pickles path =
     (if suffix ''duplicates_0000.pkl'' path then [(1, {1, 2})]
      else if suffix ''duplicates_0001.pkl'' path then [(5, {5, 7})]
      else [])"

text \<open>The values \<open>yield_deduped_pile\<close> compares: an integer offset, a record
  \<^verbatim>\<open>(offset, found_offsets)\<close>, or \<^verbatim>\<open>None\<close>. Python's \<^verbatim>\<open>==\<close> on them is equality of these
  values: a tuple never equals an integer.\<close>

datatype pyval = PyInt nat | PyTuple nat "nat set" | PyNone

text \<open>\<open>get_duplicate_stats(duplicates_directory)\<close>, applied to the arguments of a call: with
  any other number of arguments the call raises. \<open>stats\<close> gives the contents of the statistics
  file of a directory (total duplicates), when it exists.\<close>

definition get_duplicate_stats :: "(string \<Rightarrow> nat option) \<Rightarrow> string list \<Rightarrow> error + nat option" where
  "get_duplicate_stats stats args =
     (case args of
        [duplicates_directory] \<Rightarrow> Inr (stats (path_join duplicates_directory ''duplicate_statistics.json''))
      | _ \<Rightarrow> Inl TypeError)"

text \<open>The loop of \<open>yield_deduped_pile\<close> over the corpus: \<open>current_duplicate\<close>, the records the
  duplicates reader has not delivered yet, and the documents still to come.\<close>

fun deduped_loop :: "pyval \<Rightarrow> duplicate list \<Rightarrow> (nat \<times> string) list \<Rightarrow> (nat \<times> string) list" where
  "deduped_loop current_duplicate duplicates_gen [] = []"
| "deduped_loop current_duplicate duplicates_gen ((global_offset, document) # pile) =
     (if current_duplicate = PyInt global_offset then
        (case duplicates_gen of
           [] \<Rightarrow> deduped_loop PyNone [] pile
         | d # ds \<Rightarrow> deduped_loop (PyTuple (fst d) (snd d)) ds pile)
      else (global_offset, document) # deduped_loop current_duplicate duplicates_gen pile)"

text \<open>From the line that opens the duplicates reader on: \<^verbatim>\<open>next\<close> on a reader without records
  raises \<^verbatim>\<open>StopIteration\<close>, which a generator turns into \<^verbatim>\<open>RuntimeError\<close>.\<close>

definition deduped_from_reader ::
  "duplicate list \<Rightarrow> (nat \<times> string) list \<Rightarrow> error option \<times> (nat \<times> string) list" where
  "deduped_from_reader duplicates_gen pile =
     (case duplicates_gen of
        [] \<Rightarrow> (Some RuntimeError, [])
      | d # ds \<Rightarrow> (None, deduped_loop (PyTuple (fst d) (snd d)) ds pile))"

text \<open>The generator: the error it raises, if any, and the documents it yields before.
  \<open>pile_statistics_pkl\<close> is the document count in \<^verbatim>\<open>pile_statistics.pkl\<close>, when that file
  exists.\<close>

definition yield_deduped_pile ::
  "(string \<Rightarrow> nat option) \<Rightarrow> nat option \<Rightarrow> (string \<Rightarrow> duplicate list) \<Rightarrow> string list
     \<Rightarrow> (nat \<times> string) list \<Rightarrow> string \<Rightarrow> string \<Rightarrow> error option \<times> (nat \<times> string) list" where
  "yield_deduped_pile stats pile_statistics_pkl pickle_load listing pile pile_directory duplicates_directory =
     (case get_duplicate_stats stats [] of
        Inl ex \<Rightarrow> (Some ex, [])
      | Inr None \<Rightarrow> (Some TypeError, [])
      | Inr (Some total_duplicates) \<Rightarrow>
          (case pile_statistics_pkl of
             None \<Rightarrow> (Some FileNotFoundError, [])
           | Some document_count \<Rightarrow>
               if document_count = 0 then (Some ZeroDivisionError, [])
               else deduped_from_reader
                      (yield_duplicates pickle_load listing duplicates_directory False) pile))"

section \<open>Auxiliary notions for the statements\<close>




text \<open>Streams and disks for the examples: three documents with one signature; a document
  followed by two that share another signature; a disk half free and a disk that is full.\<close>

definition sig_a :: minhash where
  "sig_a = [7, 7, 7, 7, 7, 7, 7, 7, 7, 7]"

definition sig_b :: minhash where
  "sig_b = [1, 2, 3, 4, 5, 6, 7, 8, 9, 10]"

definition example_cluster :: "(nat \<times> minhash) list" where
  "example_cluster = [(0, sig_a), (1, sig_a), (2, sig_a)]"

definition example_pair :: "(nat \<times> minhash) list" where
  "example_pair = [(0, sig_b), (1, sig_a), (2, sig_a)]"

definition half_free :: "nat \<Rightarrow> nat \<times> nat" where
  "half_free n = (50, 100)"



text \<open>What the dedupe loop keeps true of the index: it is consistent, it has the parameters
  of \<open>L\<close>, it holds every document still to come, and what else it holds collides with no
  document still to come.\<close>

definition loop_inv :: "MinHashLSH \<Rightarrow> (nat \<times> minhash) list \<Rightarrow> MinHashLSH \<Rightarrow> bool" where
  "loop_inv L rest l =
     (index_inv l \<and> bands l = bands L \<and> rows l = rows L \<and> band_hash l = band_hash L
      \<and> num_perm l = 10
      \<and> (\<forall>om \<in> set rest. keys l (fst om) = Some (Hs L (snd om)))
      \<and> (\<forall>key hs. keys l key = Some hs \<longrightarrow> key \<notin> fst ` set rest
            \<longrightarrow> (\<forall>om \<in> set rest. \<not> (\<exists>i < bands L. hs ! i = Hs L (snd om) ! i))))"

text \<open>The batching of the pass on its own: what each document appends (its record, or
  nothing), and the flushes that follow, on the pending records, the batch number and the
  trace alone.\<close>

fun news_of :: "MinHashLSH \<Rightarrow> (nat \<times> minhash) list \<Rightarrow> duplicate list list" where
  "news_of l [] = []"
| "news_of l (om # rest) =
     (if \<exists>om' \<in> set rest. collide l (snd om) (snd om')
      then [(fst om, set (map fst (filter (\<lambda>om'. collide l (snd om) (snd om')) (om # rest))))]
      else []) # news_of l rest"

definition view :: "dedupe_state \<Rightarrow> duplicate list \<times> nat \<times> event list" where
  "view st = (duplicates st, batch_number st, events st)"

definition flush_view ::
  "nat \<Rightarrow> (nat \<Rightarrow> nat \<times> nat) \<Rightarrow> duplicate list \<times> nat \<times> event list
     \<Rightarrow> error option \<times> duplicate list \<times> nat \<times> event list" where
  "flush_view save_frequency disk_usage v =
     (case v of (ds, n, tr) \<Rightarrow>
        if length ds = save_frequency
        then (ensure_disk_space (disk_usage (n + 1)), [], n + 1,
              tr @ [Save_duplicate_batch n ds, Ensure_disk_space (disk_usage (n + 1))])
        else (None, ds, n, tr))"

fun batches ::
  "nat \<Rightarrow> (nat \<Rightarrow> nat \<times> nat) \<Rightarrow> duplicate list list \<Rightarrow> duplicate list \<times> nat \<times> event list
     \<Rightarrow> error option \<times> duplicate list \<times> nat \<times> event list" where
  "batches save_frequency disk_usage [] v = (None, v)"
| "batches save_frequency disk_usage (new # news) v =
     (case flush_view save_frequency disk_usage (fst v @ new, snd v) of
        (Some ex, v') \<Rightarrow> (Some ex, v')
      | (None, v') \<Rightarrow> batches save_frequency disk_usage news v')"


section \<open>Properties of the batch commit and the recovery\<close>

lemma crash_states_eight:
  "crash_states wd [f1, f2, f3, f4, f5, f6, f7, f8] =
     [wd, f1 wd, f2 (f1 wd), f3 (f2 (f1 wd)), f4 (f3 (f2 (f1 wd))), f5 (f4 (f3 (f2 (f1 wd)))),
      f6 (f5 (f4 (f3 (f2 (f1 wd))))), f7 (f6 (f5 (f4 (f3 (f2 (f1 wd)))))),
      f8 (f7 (f6 (f5 (f4 (f3 (f2 (f1 wd)))))))]"
  by (simp add: crash_states_def run_steps_def)

lemmas step_defs = touch_lock_def open_minhashes_file_def dump_minhashes_file_def
  open_checkpoint_temp_def dump_checkpoint_temp_def rename_checkpoint_to_old_def
  rename_temp_to_checkpoint_def remove_lock_def

lemma hd_le_last:
  assumes "sorted (map fst batch)" and "batch \<noteq> []"
  shows "fst (hd batch) \<le> fst (last batch)"
proof (cases batch)
  case Nil
  with assms show ?thesis by simp
next
  case (Cons x xs)
  show ?thesis
  proof (cases "xs = []")
    case True
    with Cons show ?thesis by simp
  next
    case False
    then have "last xs \<in> set xs" by simp
    with assms Cons False show ?thesis by auto
  qed
qed

lemma at_or_below_refl: "at_or_below c c"
  by (simp add: at_or_below_def split: option.splits)


lemma checkpoint_offset_Complete:
  "checkpoint_file wd = map_option Complete c \<Longrightarrow>
     checkpoint_offset wd = Inr (case c of None \<Rightarrow> 0 | Some x \<Rightarrow> x + 1)"
  by (cases c) (simp_all add: checkpoint_offset_def)

lemma quiescentI:
  "\<not> transaction_lock wd \<Longrightarrow> checkpoint_temp_file wd = None \<Longrightarrow>
   checkpoint_file wd = map_option Complete c \<Longrightarrow>
   checkpoint_old_file wd = map_option Complete c_old \<Longrightarrow>
   at_or_below c_old c \<Longrightarrow> quiescent wd c c_old"
  by (simp add: quiescent_def)

lemma quiescentD:
  assumes "quiescent wd c c_old"
  shows "\<not> transaction_lock wd" "checkpoint_temp_file wd = None"
    "checkpoint_file wd = map_option Complete c"
    "checkpoint_old_file wd = map_option Complete c_old"
    "at_or_below c_old c"
  using assms by (auto simp: quiescent_def)

lemma at_or_below_NoneD: "at_or_below c None \<Longrightarrow> c = None"
  by (simp add: at_or_below_def split: option.splits)

lemma loop_skips_processed:
  "generate_minhashes_loop tk ps hf batch_size ckpt pile batch wd =
     generate_minhashes_loop tk ps hf batch_size ckpt (filter (\<lambda>(offset, document). ckpt \<le> offset) pile) batch wd"
  by (induction tk ps hf batch_size ckpt pile batch wd rule: generate_minhashes_loop.induct)
    (auto split: prod.splits option.splits)

text \<open>
  Claim C3, as the code has it. Take a working directory between two transactions with
  checkpoint \<open>c\<close>, and a batch whose offsets lie beyond \<open>c\<close>. Whatever the point at which
  \<open>process_batch\<close> is killed, the recovery at the next start leaves no lock and no temporary
  checkpoint, an older checkpoint that is at most the checkpoint, and a complete checkpoint
  \<open>c'\<close> that is either at most \<open>c\<close> or is the last offset of the interrupted batch, whose
  batch file is then completely written; processing resumes from \<open>c' + 1\<close> (from 0 without a
  checkpoint).
\<close>

theorem crash_then_recover:
  assumes q: "quiescent wd c c_old"
    and ne: "batch \<noteq> []"
    and srt: "sorted (map fst batch)"
    and ab: "beyond (fst (hd batch)) c"
    and s: "s \<in> set (crash_states wd (commit_steps batch minhashes))"
  shows "\<exists>c' c_old'. quiescent (recover s) c' c_old'
           \<and> (at_or_below c' c
               \<or> c' = Some (fst (last batch))
                 \<and> minhashes_file (recover s) (fst (hd batch))
                     = Some (Complete (zip (map fst batch) minhashes)))
           \<and> checkpoint_offset (recover s) = Inr (case c' of None \<Rightarrow> 0 | Some x \<Rightarrow> x + 1)"
proof -
  note d = quiescentD[OF q]
  define st where "st = fst (hd batch)"
  define l where "l = fst (last batch)"
  define data where "data = zip (map fst batch) minhashes"
  define s1 where "s1 = touch_lock wd"
  define s2 where "s2 = open_minhashes_file st s1"
  define s3 where "s3 = dump_minhashes_file st data s2"
  define s4 where "s4 = open_checkpoint_temp s3"
  define s5 where "s5 = dump_checkpoint_temp l s4"
  define s6 where "s6 = rename_checkpoint_to_old s5"
  define s7 where "s7 = rename_temp_to_checkpoint s6"
  define s8 where "s8 = remove_lock s7"
  note defs = s1_def s2_def s3_def s4_def s5_def s6_def s7_def s8_def
  have le: "st \<le> l" unfolding st_def l_def using hd_le_last[OF srt ne] .
  have cl: "at_or_below c (Some l)"
    using ab le by (auto simp: at_or_below_def beyond_def st_def split: option.splits)
  have fin: "\<exists>c_old'. quiescent r c' c_old' \<Longrightarrow>
      at_or_below c' c \<or> c' = Some l \<and> minhashes_file r st = Some (Complete data) \<Longrightarrow>
      \<exists>c' c_old'. quiescent r c' c_old'
           \<and> (at_or_below c' c \<or> c' = Some l \<and> minhashes_file r st = Some (Complete data))
           \<and> checkpoint_offset r = Inr (case c' of None \<Rightarrow> 0 | Some x \<Rightarrow> x + 1)" for r c'
    using checkpoint_offset_Complete quiescentD(3) by blast
  have goal: "?thesis = (\<exists>c' c_old'. quiescent (recover s) c' c_old'
           \<and> (at_or_below c' c \<or> c' = Some l \<and> minhashes_file (recover s) st = Some (Complete data))
           \<and> checkpoint_offset (recover s) = Inr (case c' of None \<Rightarrow> 0 | Some x \<Rightarrow> x + 1))"
    by (simp add: st_def l_def data_def)
  from s consider "s = wd" | "s = s1" | "s = s2" | "s = s3" | "s = s4" | "s = s5"
    | "s = s6" | "s = s7" | "s = s8"
    unfolding commit_steps_def Let_def crash_states_eight defs st_def l_def data_def by auto
  then have "\<exists>c'. (\<exists>c_old'. quiescent (recover s) c' c_old')
       \<and> (at_or_below c' c \<or> c' = Some l \<and> minhashes_file (recover s) st = Some (Complete data))"
  proof cases
    case 1
    have "quiescent (recover s) c c_old" using q d(1) 1 by (simp add: recover_def)
    then show ?thesis using at_or_below_refl by blast
  next
    case 2
    have "quiescent (recover s) c c_old"
      unfolding 2 s1_def using d by (intro quiescentI) (simp_all add: recover_def step_defs)
    then show ?thesis using at_or_below_refl by blast
  next
    case 3
    have "quiescent (recover s) c c_old"
      unfolding 3 s2_def s1_def using d by (intro quiescentI) (simp_all add: recover_def step_defs)
    then show ?thesis using at_or_below_refl by blast
  next
    case 4
    have "quiescent (recover s) c c_old"
      unfolding 4 s3_def s2_def s1_def using d
      by (intro quiescentI) (simp_all add: recover_def step_defs)
    then show ?thesis using at_or_below_refl by blast
  next
    case 5
    have "quiescent (recover s) (if c_old = None then c else c_old) None"
      unfolding 5 s4_def s3_def s2_def s1_def using d
      by (intro quiescentI) (auto simp: recover_def step_defs at_or_below_def)
    moreover have "at_or_below (if c_old = None then c else c_old) c"
      using d(5) by (simp add: at_or_below_refl)
    ultimately show ?thesis by blast
  next
    case 6
    have "quiescent (recover s) (if c_old = None then c else c_old) None"
      unfolding 6 s5_def s4_def s3_def s2_def s1_def using d
      by (intro quiescentI) (auto simp: recover_def step_defs at_or_below_def)
    moreover have "at_or_below (if c_old = None then c else c_old) c"
      using d(5) by (simp add: at_or_below_refl)
    ultimately show ?thesis by blast
  next
    case 7
    have "c = None \<Longrightarrow> c_old = None" using d(5) by (simp add: at_or_below_NoneD)
    then have "quiescent (recover s) c None"
      unfolding 7 s6_def s5_def s4_def s3_def s2_def s1_def using d
      by (intro quiescentI) (auto simp: recover_def step_defs at_or_below_def)
    then show ?thesis using at_or_below_refl by blast
  next
    case 8
    have n: "c = None \<Longrightarrow> c_old = None" using d(5) by (simp add: at_or_below_NoneD)
    have "quiescent (recover s) (Some l) c"
      unfolding 8 s7_def s6_def s5_def s4_def s3_def s2_def s1_def using d n cl
      by (intro quiescentI) (auto simp: recover_def step_defs)
    moreover have "minhashes_file (recover s) st = Some (Complete data)"
      unfolding 8 s7_def s6_def s5_def s4_def s3_def s2_def s1_def
      by (simp add: recover_def step_defs)
    ultimately show ?thesis by blast
  next
    case 9
    have n: "c = None \<Longrightarrow> c_old = None" using d(5) by (simp add: at_or_below_NoneD)
    have "quiescent (recover s) (Some l) c"
      unfolding 9 s8_def s7_def s6_def s5_def s4_def s3_def s2_def s1_def using d n cl
      by (intro quiescentI) (auto simp: recover_def step_defs)
    moreover have "minhashes_file (recover s) st = Some (Complete data)"
      unfolding 9 s8_def s7_def s6_def s5_def s4_def s3_def s2_def s1_def
      by (simp add: recover_def step_defs)
    ultimately show ?thesis by blast
  qed
  then show ?thesis unfolding goal using fin by blast
qed


lemma crash_states_member: "k \<le> length fs \<Longrightarrow> run_steps s (take k fs) \<in> set (crash_states s fs)"
  unfolding crash_states_def set_map by (rule image_eqI[of _ _ k]) auto

lemma commit_steps_length: "length (commit_steps batch minhashes) = 8"
  by (simp add: commit_steps_def Let_def)

theorem crash_then_recover_witness:
  "quiescent example_directory (Some 9) (Some 4)
   \<and> example_batch \<noteq> [] \<and> sorted (map fst example_batch)
   \<and> beyond (fst (hd example_batch)) (Some 9)
   \<and> run_steps example_directory (take 5 (commit_steps example_batch [None, None]))
        \<in> set (crash_states example_directory (commit_steps example_batch [None, None]))
   \<and> (\<exists>c' c_old'.
         quiescent (recover (run_steps example_directory (take 5 (commit_steps example_batch [None, None])))) c' c_old'
         \<and> (at_or_below c' (Some 9)
             \<or> c' = Some (fst (last example_batch))
               \<and> minhashes_file (recover (run_steps example_directory (take 5 (commit_steps example_batch [None, None]))))
                     (fst (hd example_batch))
                   = Some (Complete (zip (map fst example_batch) [None, None])))
         \<and> checkpoint_offset (recover (run_steps example_directory (take 5 (commit_steps example_batch [None, None]))))
             = Inr (case c' of None \<Rightarrow> 0 | Some x \<Rightarrow> x + 1))"
proof -
  have q: "quiescent example_directory (Some 9) (Some 4)"
    by (simp add: quiescent_def example_directory_def at_or_below_def)
  have ne: "example_batch \<noteq> []" and srt: "sorted (map fst example_batch)"
    and ab: "beyond (fst (hd example_batch)) (Some 9)"
    by (simp_all add: example_batch_def beyond_def)
  have s: "run_steps example_directory (take 5 (commit_steps example_batch [None, None]))
        \<in> set (crash_states example_directory (commit_steps example_batch [None, None]))"
    by (rule crash_states_member) (simp add: commit_steps_length)
  show ?thesis
    using q ne srt ab s crash_then_recover[OF q ne srt ab s] by simp
qed

text \<open>
  Claim C3 as stated fails: killed after \<^verbatim>\<open>checkpoint_temp.pkl\<close> was renamed to
  \<^verbatim>\<open>checkpoint.pkl\<close> and before the lock was removed, the recovery keeps the new checkpoint
  11, which is above the checkpoint 9 that was durable before the batch.
\<close>

theorem crash_after_rename_counterexample:
  "quiescent example_directory (Some 9) (Some 4)
   \<and> committed example_directory = Some 9
   \<and> run_steps example_directory (take 7 (commit_steps example_batch [None, None]))
        \<in> set (crash_states example_directory (commit_steps example_batch [None, None]))
   \<and> transaction_lock (run_steps example_directory (take 7 (commit_steps example_batch [None, None])))
   \<and> committed (recover (run_steps example_directory (take 7 (commit_steps example_batch [None, None]))))
       = Some 11
   \<and> \<not> at_or_below
         (committed (recover (run_steps example_directory (take 7 (commit_steps example_batch [None, None])))))
         (committed example_directory)"
proof -
  have s: "run_steps example_directory (take 7 (commit_steps example_batch [None, None]))
        \<in> set (crash_states example_directory (commit_steps example_batch [None, None]))"
    by (rule crash_states_member) (simp add: commit_steps_length)
  show ?thesis using s
    by (simp add: quiescent_def example_directory_def example_batch_def at_or_below_def
        committed_def commit_steps_def run_steps_def recover_def step_defs)
qed

text \<open>
  Claim C4, evaluated on the code: the checkpoint file can lose ground. Two batches are
  committed (checkpoint 1, older checkpoint 0); the third is killed after
  \<^verbatim>\<open>checkpoint_temp.pkl\<close> was written and before \<^verbatim>\<open>checkpoint.pkl\<close> was renamed. The
  recovery then renames \<^verbatim>\<open>checkpoint_old.pkl\<close> over the intact \<^verbatim>\<open>checkpoint.pkl\<close>, and
  the checkpoint goes from 1 back to 0.
\<close>

theorem checkpoint_moves_backward:
  "committed (snd (snd (generate_minhashes_main split_spaces ten_permutations length 1
       [(0, ''a b c d e f''), (1, ''g h i j k l'')] empty_directory))) = Some 1
   \<and> committed (recover (run_steps
         (snd (snd (generate_minhashes_main split_spaces ten_permutations length 1
            [(0, ''a b c d e f''), (1, ''g h i j k l'')] empty_directory)))
         (take 5 (commit_steps [(2, ''m n o p q r'')] [None])))) = Some 0"
  by (simp add: generate_minhashes_main_def recover_def checkpoint_offset_def empty_directory_def process_batch_def
      commit_steps_def run_steps_def step_defs committed_def)


section \<open>Properties of the signatures\<close>





































section \<open>Properties of the readers\<close>

text \<open>
  Claim C9, evaluated on the code. The reader opens the files in the order of the directory
  listing: listed as 0001 before 0000, the records of batch 1 come before those of batch 0,
  where the reader of the specification yields batch 0 first. And the test for \<^verbatim>\<open>smol\<close> reads
  the whole path: in a directory named \<^verbatim>\<open>smol_run\<close> every file is left out.
\<close>

theorem reader_ignores_filename_order:
  "yield_duplicates example_pickles
       [''duplicates_0001.pkl'', ''duplicates_smol_0001.pkl'', ''duplicates_0000.pkl'',
        ''duplicates_smol_0000.pkl''] ''pile_duplicates'' False
     = [(5, {5, 7}), (1, {1, 2})]
   \<and> yield_duplicates_in_filename_order example_pickles
       [''duplicates_0000.pkl'', ''duplicates_0001.pkl''] ''pile_duplicates''
     = [(1, {1, 2}), (5, {5, 7})]
   \<and> yield_duplicates example_pickles
       [''duplicates_0000.pkl'', ''duplicates_0001.pkl''] ''smol_run'' False = []"
  by (simp add: yield_duplicates_def yield_duplicates_in_filename_order_def duplicates_files_def
      glob_duplicates_def matches_pattern_def path_join_def example_pickles_def Let_def
      suffix_to_prefix sublist_Cons_right prefix_Cons)


lemma deduped_loop_record: "deduped_loop (PyTuple offset found_offsets) ds pile = pile"
  by (induction pile) auto

text \<open>
  Claim C10, evaluated on the code. The generator calls \<open>get_duplicate_stats\<close> without its
  argument and raises \<^verbatim>\<open>TypeError\<close> before it yields anything. From the line that opens the
  duplicates reader on, the code does what the claim says: the record \<^verbatim>\<open>(1, {1, 2})\<close> never
  equals an integer offset, and all three documents are yielded.
\<close>

theorem generator_raises_before_the_loop:
  "yield_deduped_pile (\<lambda>path. Some 1) (Some 3) example_pickles [''duplicates_0000.pkl'']
       [(0, ''a''), (1, ''b''), (2, ''c'')] ''pile'' ''pile_duplicates'' = (Some TypeError, [])
   \<and> yield_duplicates example_pickles [''duplicates_0000.pkl''] ''pile_duplicates'' False = [(1, {1, 2})]
   \<and> deduped_from_reader (yield_duplicates example_pickles [''duplicates_0000.pkl''] ''pile_duplicates'' False)
       [(0, ''a''), (1, ''b''), (2, ''c'')] = (None, [(0, ''a''), (1, ''b''), (2, ''c'')])"
proof -
  have y: "yield_duplicates example_pickles [''duplicates_0000.pkl''] ''pile_duplicates'' False = [(1, {1, 2})]"
    by (simp add: yield_duplicates_def duplicates_files_def
      glob_duplicates_def matches_pattern_def path_join_def example_pickles_def Let_def
      suffix_to_prefix sublist_Cons_right prefix_Cons)
  show ?thesis
    unfolding y
    by (simp add: yield_deduped_pile_def get_duplicate_stats_def deduped_from_reader_def deduped_loop_record)
qed

section \<open>Files written under their final name\<close>



section \<open>The LSH index\<close>

lemma bucket_insert_val:
  "bucket (insert_val key bk' t) bk = (if bk = bk' then Set.insert key (bucket t bk) else bucket t bk)"
  by (auto simp: insert_val_def bucket_def)

lemma bucket_fold_insert:
  "bucket (fold (insert_val key) bks t) bk
     = (if bk \<in> set bks then Set.insert key (bucket t bk) else bucket t bk)"
proof (induction bks arbitrary: t)
  case Nil
  then show ?case by simp
next
  case (Cons a bks)
  show ?case
    by (auto simp: Cons.IH bucket_insert_val)
qed

lemma bucket_remove_val:
  "bucket (remove_val key bk' t) bk = (if bk = bk' then bucket t bk - {key} else bucket t bk)"
  by (auto simp: remove_val_def bucket_def)

lemma bucket_fold_remove:
  "bucket (fold (remove_val key) bks t) bk
     = (if bk \<in> set bks then bucket t bk - {key} else bucket t bk)"
proof (induction bks arbitrary: t)
  case Nil
  then show ?case by simp
next
  case (Cons a bks)
  show ?case
    by (auto simp: Cons.IH bucket_remove_val)
qed

lemma fold_union_buckets:
  "fold (\<lambda>bk candidates. candidates \<union> bucket t bk) bks c = c \<union> (\<Union>bk \<in> set bks. bucket t bk)"
  by (induction bks arbitrary: c) auto

lemma length_Hs: "length (Hs l m) = bands l"
  by (simp add: Hs_def)

lemma in_zip_upt: "(i, H) \<in> set (zip [0..<n] hs) \<longleftrightarrow> i < n \<and> i < length hs \<and> hs ! i = H"
proof
  assume "(i, H) \<in> set (zip [0..<n] hs)"
  then show "i < n \<and> i < length hs \<and> hs ! i = H" by (auto simp: set_zip)
next
  assume a: "i < n \<and> i < length hs \<and> hs ! i = H"
  then have "(i, H) = zip [0..<n] hs ! i" "i < length (zip [0..<n] hs)" by simp_all
  then show "(i, H) \<in> set (zip [0..<n] hs)" by (metis nth_mem)
qed

lemma collide_iff: "collide l m m' \<longleftrightarrow> (\<exists>i < bands l. Hs l m ! i = Hs l m' ! i)"
  by (auto simp: collide_def)

lemma collide_sym: "collide l m m' \<Longrightarrow> collide l m' m"
  by (auto simp: collide_iff)

text \<open>What a query returns on a consistent index.\<close>

lemma lsh_query_inv:
  assumes "index_inv l" and "length m = num_perm l"
  shows "lsh_query l (Some m)
           = Inr {key. \<exists>hs. keys l key = Some hs \<and> (\<exists>i < bands l. hs ! i = Hs l m ! i)}"
proof -
  have "(\<Union>bk \<in> set (zip [0..<bands l] (Hs l m)). bucket (hashtables l) bk)
          = {key. \<exists>hs. keys l key = Some hs \<and> (\<exists>i < bands l. hs ! i = Hs l m ! i)}"
  proof (intro set_eqI iffI)
    fix key
    assume "key \<in> (\<Union>bk \<in> set (zip [0..<bands l] (Hs l m)). bucket (hashtables l) bk)"
    then obtain i H where ih: "(i, H) \<in> set (zip [0..<bands l] (Hs l m))"
      and k: "key \<in> bucket (hashtables l) (i, H)" by auto
    from ih have "i < bands l" "Hs l m ! i = H" by (simp_all add: in_zip_upt)
    moreover from k assms(1) obtain hs where "keys l key = Some hs" "hs ! i = H"
      by (auto simp: index_inv_def)
    ultimately show "key \<in> {key. \<exists>hs. keys l key = Some hs \<and> (\<exists>i < bands l. hs ! i = Hs l m ! i)}"
      by auto
  next
    fix key
    assume "key \<in> {key. \<exists>hs. keys l key = Some hs \<and> (\<exists>i < bands l. hs ! i = Hs l m ! i)}"
    then obtain hs i where h: "keys l key = Some hs" "i < bands l" "hs ! i = Hs l m ! i" by auto
    then have "key \<in> bucket (hashtables l) (i, Hs l m ! i)"
      using assms(1) by (auto simp: index_inv_def)
    moreover have "(i, Hs l m ! i) \<in> set (zip [0..<bands l] (Hs l m))"
      using h(2) by (simp add: in_zip_upt length_Hs)
    ultimately show "key \<in> (\<Union>bk \<in> set (zip [0..<bands l] (Hs l m)). bucket (hashtables l) bk)"
      by blast
  qed
  then show ?thesis
    using assms(2) by (simp add: lsh_query_def fold_union_buckets)
qed

text \<open>Insertion and removal keep the index consistent.\<close>

lemma lsh_insert_inv:
  assumes inv: "index_inv l" and len: "length m = num_perm l" and new: "keys l key = None"
  shows "\<exists>l'. lsh_insert l key (Some m) = Inr l' \<and> index_inv l'
           \<and> keys l' = (keys l)(key \<mapsto> Hs l m)
           \<and> bands l' = bands l \<and> rows l' = rows l \<and> band_hash l' = band_hash l
           \<and> num_perm l' = num_perm l"
proof -
  define l' where "l' = l\<lparr>keys := (keys l)(key \<mapsto> Hs l m),
                        hashtables := fold (insert_val key) (zip [0..<bands l] (Hs l m))
                                        (hashtables l)\<rparr>"
  have r: "lsh_insert l key (Some m) = Inr l'"
    using len new by (simp add: lsh_insert_def l'_def)
  have "index_inv l'"
    unfolding index_inv_def
  proof (intro conjI allI)
    fix i H k
    show "k \<in> bucket (hashtables l') (i, H)
          \<longleftrightarrow> (\<exists>hs. keys l' k = Some hs \<and> i < bands l' \<and> hs ! i = H)"
      using inv new
      by (auto simp: l'_def bucket_fold_insert in_zip_upt length_Hs index_inv_def)
  next
    fix k hs
    show "keys l' k = Some hs \<longrightarrow> length hs = bands l'"
      using inv by (auto simp: l'_def length_Hs index_inv_def)
  qed
  then show ?thesis using r by (simp add: l'_def)
qed

lemma lsh_remove_inv:
  assumes inv: "index_inv l" and old: "keys l key = Some hs"
  shows "\<exists>l'. lsh_remove l key = Inr l' \<and> index_inv l'
           \<and> keys l' = (keys l)(key := None)
           \<and> bands l' = bands l \<and> rows l' = rows l \<and> band_hash l' = band_hash l
           \<and> num_perm l' = num_perm l"
proof -
  define l' where "l' = l\<lparr>hashtables := fold (remove_val key) (zip [0..<bands l] hs) (hashtables l),
                        keys := (keys l)(key := None)\<rparr>"
  have r: "lsh_remove l key = Inr l'"
    using old by (simp add: lsh_remove_def l'_def)
  have len: "length hs = bands l" using inv old by (auto simp: index_inv_def)
  have "index_inv l'"
    unfolding index_inv_def
  proof (intro conjI allI)
    fix i H k
    show "k \<in> bucket (hashtables l') (i, H)
          \<longleftrightarrow> (\<exists>hs. keys l' k = Some hs \<and> i < bands l' \<and> hs ! i = H)"
      using inv old len
      by (auto simp: l'_def bucket_fold_remove in_zip_upt index_inv_def)
  next
    fix k hs
    show "keys l' k = Some hs \<longrightarrow> length hs = bands l'"
      using inv by (auto simp: l'_def index_inv_def)
  qed
  then show ?thesis using r by (simp add: l'_def)
qed

section \<open>The dedupe pass\<close>

lemma loop_invI:
  assumes "index_inv l" "bands l = bands L" "rows l = rows L" "band_hash l = band_hash L"
    "num_perm l = 10"
    "\<And>om. om \<in> set rest \<Longrightarrow> keys l (fst om) = Some (Hs L (snd om))"
    "\<And>key hs om i. keys l key = Some hs \<Longrightarrow> key \<notin> fst ` set rest \<Longrightarrow> om \<in> set rest
        \<Longrightarrow> i < bands L \<Longrightarrow> hs ! i \<noteq> Hs L (snd om) ! i"
  shows "loop_inv L rest l"
  unfolding loop_inv_def using assms by blast

lemma loop_invD:
  assumes "loop_inv L rest l"
  shows "index_inv l" "bands l = bands L" "rows l = rows L" "band_hash l = band_hash L"
    "num_perm l = 10"
    "\<And>om. om \<in> set rest \<Longrightarrow> keys l (fst om) = Some (Hs L (snd om))"
    "\<And>key hs om i. keys l key = Some hs \<Longrightarrow> key \<notin> fst ` set rest \<Longrightarrow> om \<in> set rest
        \<Longrightarrow> i < bands L \<Longrightarrow> hs ! i \<noteq> Hs L (snd om) ! i"
  using assms unfolding loop_inv_def by blast+

lemma Hs_cong:
  "bands l = bands L \<Longrightarrow> rows l = rows L \<Longrightarrow> band_hash l = band_hash L \<Longrightarrow> Hs l m = Hs L m"
  by (simp add: Hs_def)

lemma matches_set:
  "set (map fst (filter (\<lambda>om'. collide L m (snd om')) xs))
     = fst ` {om' \<in> set xs. collide L m (snd om')}"
  by (simp only: set_map set_filter)

lemma query_matches:
  assumes inv: "loop_inv L (om # rest) l"
  shows "{key. \<exists>hs. keys l key = Some hs \<and> (\<exists>i < bands l. hs ! i = Hs l (snd om) ! i)}
           = fst ` {om' \<in> set (om # rest). collide L (snd om) (snd om')}"
    (is "?R = ?M")
proof -
  note D = loop_invD[OF inv]
  have b: "bands l = bands L" by (rule D(2))
  have hs: "\<And>m. Hs l m = Hs L m" using D(2,3,4) by (rule Hs_cong)
  show ?thesis
  proof (intro set_eqI iffI)
    fix key
    assume "key \<in> ?R"
    then obtain hs i where k: "keys l key = Some hs" "i < bands L" "hs ! i = Hs L (snd om) ! i"
      unfolding b hs by blast
    have "key \<in> fst ` set (om # rest)"
    proof (rule ccontr)
      assume n: "key \<notin> fst ` set (om # rest)"
      have "om \<in> set (om # rest)" by simp
      from D(7)[OF k(1) n this k(2)] k(3) show False by simp
    qed
    then obtain om' where o: "om' \<in> set (om # rest)" "key = fst om'" by blast
    from D(6)[OF o(1)] k(1) o(2) have "hs = Hs L (snd om')" by simp
    with k have "collide L (snd om) (snd om')" unfolding collide_iff by metis
    with o show "key \<in> ?M" by blast
  next
    fix key
    assume "key \<in> ?M"
    then obtain om' where o: "om' \<in> set (om # rest)" "key = fst om'"
      "collide L (snd om) (snd om')" by blast
    then obtain i where i: "i < bands L" "Hs L (snd om) ! i = Hs L (snd om') ! i"
      unfolding collide_iff by blast
    have "keys l key = Some (Hs L (snd om'))" using D(6)[OF o(1)] o(2) by simp
    then show "key \<in> ?R" unfolding b hs using i by auto
  qed
qed

lemma fst_neq: "a \<notin> fst ` S \<Longrightarrow> x \<in> S \<Longrightarrow> fst x \<noteq> a"
  by (metis imageI)

lemma insert_all_ok:
  assumes "index_inv l" and "num_perm l = 10"
    and "distinct (map fst sigs)"
    and "list_all (\<lambda>om. length (snd om) = 10) sigs"
    and "\<forall>om \<in> set sigs. keys l (fst om) = None"
  shows "\<exists>l'. insert_all l (stream sigs) = Inr l' \<and> index_inv l'
           \<and> bands l' = bands l \<and> rows l' = rows l \<and> band_hash l' = band_hash l
           \<and> num_perm l' = 10
           \<and> (\<forall>om \<in> set sigs. keys l' (fst om) = Some (Hs l (snd om)))
           \<and> (\<forall>key. key \<notin> fst ` set sigs \<longrightarrow> keys l' key = keys l key)"
  using assms
proof (induction sigs arbitrary: l)
  case Nil
  then show ?case by (simp add: stream_def)
next
  case (Cons om rest)
  have d: "fst om \<notin> fst ` set rest" using Cons.prems(3) by simp
  have new: "keys l (fst om) = None" using Cons.prems(5) by simp
  have len: "length (snd om) = num_perm l" using Cons.prems(2,4) by simp
  obtain l1 where l1: "lsh_insert l (fst om) (Some (snd om)) = Inr l1" "index_inv l1"
    "keys l1 = (keys l)(fst om \<mapsto> Hs l (snd om))"
    "bands l1 = bands l" "rows l1 = rows l" "band_hash l1 = band_hash l" "num_perm l1 = num_perm l"
    using lsh_insert_inv[OF Cons.prems(1) len new] by blast
  have hs: "\<And>m. Hs l1 m = Hs l m" using l1(4,5,6) by (rule Hs_cong)
  have free: "\<forall>om' \<in> set rest. keys l1 (fst om') = None"
  proof
    fix om' assume o: "om' \<in> set rest"
    with d have "fst om' \<noteq> fst om" by (rule fst_neq)
    moreover have "keys l (fst om') = None" using Cons.prems(5) o by simp
    ultimately show "keys l1 (fst om') = None" using l1(3) by simp
  qed
  have "index_inv l1" "num_perm l1 = 10" "distinct (map fst rest)"
    "list_all (\<lambda>om. length (snd om) = 10) rest"
    using l1(2,7) Cons.prems(2,3,4) by simp_all
  from Cons.IH[OF this free] obtain l' where
    l': "insert_all l1 (stream rest) = Inr l'" "index_inv l'"
    "bands l' = bands l1" "rows l' = rows l1" "band_hash l' = band_hash l1" "num_perm l' = 10"
    "\<forall>om \<in> set rest. keys l' (fst om) = Some (Hs l1 (snd om))"
    "\<forall>key. key \<notin> fst ` set rest \<longrightarrow> keys l' key = keys l1 key"
    by blast
  have "insert_all l (stream (om # rest)) = Inr l'"
    using l1(1) l'(1) by (simp add: stream_def)
  moreover have "\<forall>om' \<in> set (om # rest). keys l' (fst om') = Some (Hs l (snd om'))"
  proof
    fix om' assume "om' \<in> set (om # rest)"
    then consider "om' = om" | "om' \<in> set rest" by auto
    then show "keys l' (fst om') = Some (Hs l (snd om'))"
    proof cases
      case 1
      then show ?thesis using l'(8) d l1(3) by simp
    next
      case 2
      then show ?thesis using l'(7) hs by simp
    qed
  qed
  moreover have "\<forall>key. key \<notin> fst ` set (om # rest) \<longrightarrow> keys l' key = keys l key"
    using l'(8) l1(3) by auto
  ultimately show ?case
    using l'(2,3,4,5,6) l1(4,5,6) by simp
qed

text \<open>A stream that holds the \<^verbatim>\<open>None\<close> of a failed document cannot be indexed.\<close>

lemma insert_all_None: "insert_all l ((offset, None) # rest) = Inl TypeError"
  by (simp add: lsh_insert_def)

lemma index_inv_new: "index_inv (new_MinHashLSH n params H)"
  by (simp add: index_inv_def new_MinHashLSH_def bucket_def)

lemma sorted_wrt_less_distinct: "sorted_wrt (<) (xs :: nat list) \<Longrightarrow> distinct xs"
  by (induction xs) auto

lemma flush_full_batch_view:
  "\<exists>st'. flush_full_batch sf du st = (fst (flush_view sf du (view st)), st')
         \<and> view st' = snd (flush_view sf du (view st)) \<and> lsh st' = lsh st"
  by (simp add: flush_full_batch_def flush_view_def view_def save_duplicate_batch_def Let_def)

lemma dedupe_step_view:
  assumes inv: "loop_inv L (om # rest) (lsh st)"
    and d: "fst om \<notin> fst ` set rest"
    and len: "length (snd om) = 10"
  shows "\<exists>st'. dedupe_step sf du (fst om, Some (snd om)) st
             = (fst (flush_view sf du (fst (view st) @ hd (news_of L (om # rest)), snd (view st))), st')
           \<and> view st' = snd (flush_view sf du (fst (view st) @ hd (news_of L (om # rest)), snd (view st)))
           \<and> loop_inv L rest (lsh st')"
proof -
  note D = loop_invD[OF inv]
  define M where "M = fst ` {om' \<in> set (om # rest). collide L (snd om) (snd om')}"
  have Ml: "set (map fst (filter (\<lambda>om'. collide L (snd om) (snd om')) (om # rest))) = M"
    unfolding M_def by (rule matches_set)
  have q: "lsh_query (lsh st) (Some (snd om)) = Inr M"
    using lsh_query_inv[OF D(1), of "snd om"] len D(5) query_matches[OF inv] by (simp add: M_def)
  have other: "(\<exists>found_offset \<in> M. found_offset \<noteq> fst om)
                 \<longleftrightarrow> (\<exists>om' \<in> set rest. collide L (snd om) (snd om'))"
  proof
    assume "\<exists>found_offset \<in> M. found_offset \<noteq> fst om"
    then obtain om' where o: "om' \<in> set (om # rest)" "fst om' \<noteq> fst om" "collide L (snd om) (snd om')"
      unfolding M_def by blast
    then have "om' \<in> set rest" by auto
    with o(3) show "\<exists>om' \<in> set rest. collide L (snd om) (snd om')" by blast
  next
    assume "\<exists>om' \<in> set rest. collide L (snd om) (snd om')"
    then obtain om' where o: "om' \<in> set rest" "collide L (snd om) (snd om')" by blast
    then have "fst om' \<in> M" unfolding M_def by force
    moreover have "fst om' \<noteq> fst om" using d o(1) by (rule fst_neq)
    ultimately show "\<exists>found_offset \<in> M. found_offset \<noteq> fst om" by blast
  qed
  have keep: "\<And>om'. om' \<in> set rest \<Longrightarrow> keys (lsh st) (fst om') = Some (Hs L (snd om'))"
    using D(6) by simp
  have surv: "\<And>key hs om' i. keys (lsh st) key = Some hs \<Longrightarrow> key \<notin> fst ` set rest \<Longrightarrow> key \<noteq> fst om
      \<Longrightarrow> om' \<in> set rest \<Longrightarrow> i < bands L \<Longrightarrow> hs ! i \<noteq> Hs L (snd om') ! i"
  proof -
    fix key hs om' i
    assume a: "keys (lsh st) key = Some hs" "key \<notin> fst ` set rest" "key \<noteq> fst om"
      "om' \<in> set rest" "i < bands L"
    have "key \<notin> fst ` set (om # rest)" using a(2,3) by auto
    moreover have "om' \<in> set (om # rest)" using a(4) by simp
    ultimately show "hs ! i \<noteq> Hs L (snd om') ! i" using D(7)[OF a(1)] a(5) by blast
  qed
  show ?thesis
  proof (cases "\<exists>om' \<in> set rest. collide L (snd om) (snd om')")
    case True
    have k: "keys (lsh st) (fst om) = Some (Hs L (snd om))"
      using D(6)[of om] by simp
    obtain l' where l': "lsh_remove (lsh st) (fst om) = Inr l'" "index_inv l'"
      "keys l' = (keys (lsh st))(fst om := None)"
      "bands l' = bands (lsh st)" "rows l' = rows (lsh st)" "band_hash l' = band_hash (lsh st)"
      "num_perm l' = num_perm (lsh st)"
      using lsh_remove_inv[OF D(1) k] by blast
    define st1 where "st1 = st\<lparr>duplicates := duplicates st @ [(fst om, M)],
                               duplicate_count := duplicate_count st + 1, lsh := l'\<rparr>"
    have rd: "record_duplicate (fst om) M st = (None, st1)"
      using l'(1) by (simp add: record_duplicate_def Let_def st1_def)
    have inv1: "loop_inv L rest l'"
    proof (rule loop_invI)
      show "index_inv l'" by (rule l'(2))
      show "bands l' = bands L" using l'(4) D(2) by simp
      show "rows l' = rows L" using l'(5) D(3) by simp
      show "band_hash l' = band_hash L" using l'(6) D(4) by simp
      show "num_perm l' = 10" using l'(7) D(5) by simp
    next
      fix om' assume o: "om' \<in> set rest"
      with d have "fst om' \<noteq> fst om" by (rule fst_neq)
      then show "keys l' (fst om') = Some (Hs L (snd om'))" using keep[OF o] l'(3) by simp
    next
      fix key hs om' i
      assume a: "keys l' key = Some hs" "key \<notin> fst ` set rest" "om' \<in> set rest" "i < bands L"
      from a(1) l'(3) have "key \<noteq> fst om" "keys (lsh st) key = Some hs"
        by (auto split: if_splits)
      then show "hs ! i \<noteq> Hs L (snd om') ! i" using surv a(2,3,4) by blast
    qed
    have h: "hd (news_of L (om # rest)) = [(fst om, M)]"
      unfolding Ml[symmetric] using True by (simp only: news_of.simps if_True list.sel)
    have v1: "view st1 = (fst (view st) @ hd (news_of L (om # rest)), snd (view st))"
      unfolding h by (simp add: view_def st1_def)
    obtain st' where f: "flush_full_batch sf du st1 = (fst (flush_view sf du (view st1)), st')"
      "view st' = snd (flush_view sf du (view st1))" "lsh st' = lsh st1"
      using flush_full_batch_view[of sf du st1] by blast
    have "dedupe_step sf du (fst om, Some (snd om)) st = (fst (flush_view sf du (view st1)), st')"
      using q other True rd f(1) by (simp add: dedupe_step_def)
    moreover have "loop_inv L rest (lsh st')" using inv1 f(3) by (simp add: st1_def)
    ultimately show ?thesis using f(2) unfolding v1 by blast
  next
    case False
    have v1: "view st = (fst (view st) @ hd (news_of L (om # rest)), snd (view st))"
      using False by (simp add: view_def)
    obtain st' where f: "flush_full_batch sf du st = (fst (flush_view sf du (view st)), st')"
      "view st' = snd (flush_view sf du (view st))" "lsh st' = lsh st"
      using flush_full_batch_view[of sf du st] by blast
    have "dedupe_step sf du (fst om, Some (snd om)) st = (fst (flush_view sf du (view st)), st')"
      using q other False f(1) by (simp add: dedupe_step_def)
    moreover have "loop_inv L rest (lsh st)"
    proof (rule loop_invI)
      show "index_inv (lsh st)" "bands (lsh st) = bands L" "rows (lsh st) = rows L"
        "band_hash (lsh st) = band_hash L" "num_perm (lsh st) = 10"
        using D(1-5) by simp_all
    next
      fix om' assume "om' \<in> set rest"
      then show "keys (lsh st) (fst om') = Some (Hs L (snd om'))" by (rule keep)
    next
      fix key hs om' i
      assume a: "keys (lsh st) key = Some hs" "key \<notin> fst ` set rest" "om' \<in> set rest" "i < bands L"
      show "hs ! i \<noteq> Hs L (snd om') ! i"
      proof (cases "key = fst om")
        case True
        then have "hs = Hs L (snd om)" using a(1) D(6)[of om] by simp
        moreover have "\<not> collide L (snd om) (snd om')" using False a(3) by blast
        ultimately show ?thesis using a(4) unfolding collide_iff by blast
      next
        case False
        then show ?thesis using surv a by blast
      qed
    qed
    ultimately show ?thesis using f(2,3) v1 by metis
  qed
qed

lemma dedupe_loop_view:
  assumes "loop_inv L sigs (lsh st)"
    and "distinct (map fst sigs)"
    and "list_all (\<lambda>om. length (snd om) = 10) sigs"
  shows "\<exists>st'. dedupe_loop sf du (stream sigs) st
             = (fst (batches sf du (news_of L sigs) (view st)), st')
           \<and> view st' = snd (batches sf du (news_of L sigs) (view st))"
  using assms
proof (induction sigs arbitrary: st)
  case Nil
  then show ?case by (simp add: stream_def)
next
  case (Cons om rest)
  have d: "fst om \<notin> fst ` set rest" using Cons.prems(2) by simp
  have len: "length (snd om) = 10" using Cons.prems(3) by simp
  define new where "new = hd (news_of L (om # rest))"
  have news: "news_of L (om # rest) = new # news_of L rest" by (simp add: new_def)
  define fv where "fv = flush_view sf du (fst (view st) @ new, snd (view st))"
  obtain st1 where s1: "dedupe_step sf du (fst om, Some (snd om)) st = (fst fv, st1)"
    "view st1 = snd fv" "loop_inv L rest (lsh st1)"
    using dedupe_step_view[OF Cons.prems(1) d len, of sf du] unfolding fv_def new_def by blast
  have rest: "distinct (map fst rest)" "list_all (\<lambda>om. length (snd om) = 10) rest"
    using Cons.prems(2,3) by simp_all
  show ?case
  proof (cases "fst fv")
    case None
    from Cons.IH[OF s1(3) rest] obtain st' where
      s': "dedupe_loop sf du (stream rest) st1 = (fst (batches sf du (news_of L rest) (view st1)), st')"
      "view st' = snd (batches sf du (news_of L rest) (view st1))"
      by blast
    have b: "batches sf du (news_of L (om # rest)) (view st) = batches sf du (news_of L rest) (snd fv)"
      unfolding news using None by (cases fv) (simp add: fv_def)
    have "dedupe_loop sf du (stream (om # rest)) st
            = (fst (batches sf du (news_of L rest) (view st1)), st')"
      using s1(1) None s'(1) by (simp add: stream_def)
    then show ?thesis using s'(2) b s1(2) by simp
  next
    case (Some ex)
    have b: "batches sf du (news_of L (om # rest)) (view st) = (Some ex, snd fv)"
      unfolding news using Some by (cases fv) (simp add: fv_def)
    have "dedupe_loop sf du (stream (om # rest)) st = (Some ex, st1)"
      using s1(1) Some by (simp add: stream_def)
    then show ?thesis using b s1(2) by simp
  qed
qed

text \<open>The trace of a run on a fresh directory is the trace of the batching, with the last
  partial batch written at the end.\<close>

lemma dedupe_main_view:
  assumes wf: "well_formed sigs"
    and fresh: "\<not> dedupe_done dir" "lsh_pkl dir = None" "events dir = []"
  shows "fst (dedupe_main sf du params H (stream sigs) dir)
           = fst (batches sf du (news_of (new_MinHashLSH 10 params H) sigs) ([], 0, []))"
    and "events (snd (dedupe_main sf du params H (stream sigs) dir))
           = (case batches sf du (news_of (new_MinHashLSH 10 params H) sigs) ([], 0, []) of
                (None, ds, n, tr) \<Rightarrow> if length ds \<noteq> 0 then tr @ [Save_duplicate_batch n ds] else tr
              | (Some ex, ds, n, tr) \<Rightarrow> tr)"
proof -
  define L where "L = new_MinHashLSH 10 params H"
  have dist: "distinct (map fst sigs)" and lens: "list_all (\<lambda>om. length (snd om) = 10) sigs"
    using wf by (simp_all add: well_formed_def sorted_wrt_less_distinct)
  have "index_inv L" "num_perm L = 10" "\<forall>om \<in> set sigs. keys L (fst om) = None"
    by (simp_all add: L_def index_inv_new) (simp_all add: new_MinHashLSH_def)
  from insert_all_ok[OF this(1,2) dist lens this(3)] obtain l where
    l: "insert_all L (stream sigs) = Inr l" "index_inv l"
    "bands l = bands L" "rows l = rows L" "band_hash l = band_hash L" "num_perm l = 10"
    "\<forall>om \<in> set sigs. keys l (fst om) = Some (Hs L (snd om))"
    "\<forall>key. key \<notin> fst ` set sigs \<longrightarrow> keys l key = keys L key"
    by blast
  define st0 where "st0 = run_steps (dir\<lparr>lsh := l\<rparr>) (lsh_dump_steps l)"
  have lc: "load_or_create_lsh params H (stream sigs) dir = (None, st0)"
    using fresh(2) l(1) by (simp add: load_or_create_lsh_def L_def st0_def)
  define st1 where "st1 = st0\<lparr>duplicates := [], batch_number := 0, duplicate_count := 0\<rparr>"
  have st1: "lsh st1 = l" "view st1 = ([], 0, [])"
    using fresh(3)
    by (simp_all add: view_def st1_def st0_def lsh_dump_steps_def run_steps_def open_lsh_pkl_def
        dump_lsh_pkl_def)
  have inv: "loop_inv L sigs (lsh st1)"
  proof (rule loop_invI)
    show "index_inv (lsh st1)" "bands (lsh st1) = bands L" "rows (lsh st1) = rows L"
      "band_hash (lsh st1) = band_hash L" "num_perm (lsh st1) = 10"
      using l(2-6) st1(1) by simp_all
  next
    fix om assume "om \<in> set sigs"
    then show "keys (lsh st1) (fst om) = Some (Hs L (snd om))" using l(7) st1(1) by simp
  next
    fix key hs om i
    assume "keys (lsh st1) key = Some hs" "key \<notin> fst ` set sigs"
    then have False using l(8) st1(1) by (simp add: L_def new_MinHashLSH_def)
    then show "hs ! i \<noteq> Hs L (snd om) ! i" ..
  qed
  define B where "B = batches sf du (news_of L sigs) ([], 0, [])"
  from dedupe_loop_view[OF inv dist lens, of sf du] obtain st' where
    s': "dedupe_loop sf du (stream sigs) st1 = (fst B, st')" "view st' = snd B"
    unfolding st1(2) B_def by blast
  obtain r ds n tr where B: "B = (r, ds, n, tr)" by (cases B) auto
  have v: "duplicates st' = ds" "batch_number st' = n" "events st' = tr"
    using s'(2) B by (simp_all add: view_def)
  have m: "dedupe_main sf du params H (stream sigs) dir
      = (case r of Some ex \<Rightarrow> (Some ex, st')
         | None \<Rightarrow> (None, (if length ds \<noteq> 0 then save_duplicate_batch st' else st')
               \<lparr>duplicate_statistics := Some (duplicate_count st'), dedupe_done := True\<rparr>))"
    using fresh(1) lc s'(1) B v
    by (cases r) (simp_all add: dedupe_main_def st1_def Let_def save_duplicate_batch_def)
  show "fst (dedupe_main sf du params H (stream sigs) dir)
           = fst (batches sf du (news_of (new_MinHashLSH 10 params H) sigs) ([], 0, []))"
    unfolding m L_def[symmetric] B_def[symmetric] B by (cases r) simp_all
  show "events (snd (dedupe_main sf du params H (stream sigs) dir))
           = (case batches sf du (news_of (new_MinHashLSH 10 params H) sigs) ([], 0, []) of
                (None, ds, n, tr) \<Rightarrow> if length ds \<noteq> 0 then tr @ [Save_duplicate_batch n ds] else tr
              | (Some ex, ds, n, tr) \<Rightarrow> tr)"
    unfolding m L_def[symmetric] B_def[symmetric] B using v
    by (cases r) (simp_all add: save_duplicate_batch_def)
qed

lemma flush_view_ok:
  assumes "\<forall>n. ensure_disk_space (du n) = None"
  shows "\<exists>ds' n' tr'. flush_view sf du (ds, n, tr) = (None, ds', n', tr')
           \<and> concat (map saved tr') @ ds' = concat (map saved tr) @ ds"
  using assms by (simp add: flush_view_def)

lemma batches_ok:
  assumes "\<forall>n. ensure_disk_space (du n) = None"
  shows "\<exists>ds' n' tr'. batches sf du news (ds, n, tr) = (None, ds', n', tr')
           \<and> concat (map saved tr') @ ds' = concat (map saved tr) @ ds @ concat news"
proof (induction news arbitrary: ds n tr)
  case Nil
  then show ?case by simp
next
  case (Cons new news)
  obtain ds1 n1 tr1 where f: "flush_view sf du (ds @ new, n, tr) = (None, ds1, n1, tr1)"
    "concat (map saved tr1) @ ds1 = concat (map saved tr) @ ds @ new"
    using flush_view_ok[OF assms, of sf "ds @ new" n tr] by auto
  obtain ds' n' tr' where b: "batches sf du news (ds1, n1, tr1) = (None, ds', n', tr')"
    "concat (map saved tr') @ ds' = concat (map saved tr1) @ ds1 @ concat news"
    using Cons.IH[of ds1 n1 tr1] by blast
  have "batches sf du (new # news) (ds, n, tr) = (None, ds', n', tr')"
    using f(1) b(1) by simp
  moreover have "concat (map saved tr') @ ds' = concat (map saved tr) @ ds @ concat (new # news)"
    using b(2) f(2) by (metis append.assoc concat.simps(2))
  ultimately show ?case by blast
qed

lemma expected_news: "expected L sigs = concat (news_of L sigs)"
  by (induction sigs) simp_all

lemma dedupe_main_expected:
  assumes wf: "well_formed sigs"
    and fresh: "\<not> dedupe_done dir" "lsh_pkl dir = None" "events dir = []"
    and disk: "\<forall>n. ensure_disk_space (du n) = None"
  shows "fst (dedupe_main sf du params H (stream sigs) dir) = None"
    and "emitted (snd (dedupe_main sf du params H (stream sigs) dir))
           = expected (new_MinHashLSH 10 params H) sigs"
proof -
  define L where "L = new_MinHashLSH 10 params H"
  obtain ds n tr where b: "batches sf du (news_of L sigs) ([], 0, []) = (None, ds, n, tr)"
    "concat (map saved tr) @ ds = concat (news_of L sigs)"
    using batches_ok[OF disk, of sf "news_of L sigs" "[]" 0 "[]"] by auto
  note v = dedupe_main_view[OF wf fresh, of sf du params H, folded L_def, unfolded b]
  show "fst (dedupe_main sf du params H (stream sigs) dir) = None" using v(1) by simp
  have "emitted (snd (dedupe_main sf du params H (stream sigs) dir)) = concat (map saved tr) @ ds"
    using v(2) by (simp add: emitted_def)
  then show "emitted (snd (dedupe_main sf du params H (stream sigs) dir))
           = expected (new_MinHashLSH 10 params H) sigs"
    using b(2) by (simp add: expected_news L_def)
qed

lemma expected_fst: "d \<in> set (expected L sigs) \<Longrightarrow> fst d \<in> fst ` set sigs"
  by (induction sigs) (auto split: if_splits)

lemma expected_distinct: "distinct (map fst sigs) \<Longrightarrow> distinct (map fst (expected L sigs))"
proof (induction sigs)
  case Nil
  then show ?case by simp
next
  case (Cons om rest)
  have "fst om \<notin> fst ` set (expected L rest)"
    using Cons.prems expected_fst[of _ L rest] by auto
  then show ?case using Cons by simp
qed

lemma records_for_distinct:
  "distinct (map fst ds) \<Longrightarrow> length (records_for offset ds) \<le> 1"
  unfolding records_for_def
  by (induction ds) (auto simp: filter_empty_conv image_iff)

lemma records_for_member:
  assumes "distinct (map fst ds)" and "offset \<in> fst ` set ds"
  shows "length (records_for offset ds) = 1"
proof -
  have "records_for offset ds \<noteq> []"
    using assms(2) unfolding records_for_def by (auto simp: filter_empty_conv)
  then have "length (records_for offset ds) \<noteq> 0" by simp
  with records_for_distinct[OF assms(1), of offset] show ?thesis by linarith
qed

lemma records_for_absent: "offset \<notin> fst ` set ds \<Longrightarrow> records_for offset ds = []"
  unfolding records_for_def by (auto simp: filter_empty_conv)

text \<open>A document gets a record exactly when a later document collides with it.\<close>

lemma expected_offsets:
  assumes "sorted_wrt (<) (map fst sigs)" and "om \<in> set sigs"
  shows "fst om \<in> fst ` set (expected L sigs)
           \<longleftrightarrow> (\<exists>om' \<in> set sigs. fst om < fst om' \<and> collide L (snd om) (snd om'))"
  using assms
proof (induction sigs)
  case Nil
  then show ?case by simp
next
  case (Cons x rest)
  have less: "\<And>y. y \<in> set rest \<Longrightarrow> fst x < fst y" using Cons.prems(1) by auto
  have srt: "sorted_wrt (<) (map fst rest)" using Cons.prems(1) by simp
  have notin: "fst x \<notin> fst ` set (expected L rest)"
  proof
    assume "fst x \<in> fst ` set (expected L rest)"
    then obtain d where "d \<in> set (expected L rest)" "fst d = fst x" by force
    with expected_fst[of d L rest] obtain y where "y \<in> set rest" "fst y = fst x" by force
    with less[of y] show False by simp
  qed
  show ?case
  proof (cases "om = x")
    case True
    have "fst x \<in> fst ` set (expected L (x # rest)) \<longleftrightarrow> (\<exists>om' \<in> set rest. collide L (snd x) (snd om'))"
      using notin by simp
    also have "\<dots> \<longleftrightarrow> (\<exists>om' \<in> set (x # rest). fst x < fst om' \<and> collide L (snd x) (snd om'))"
      using less by auto
    finally show ?thesis using True by simp
  next
    case False
    then have o: "om \<in> set rest" using Cons.prems(2) by simp
    then have ne: "fst om \<noteq> fst x" using less[of om] by simp
    have "fst om \<in> fst ` set (expected L (x # rest)) \<longleftrightarrow> fst om \<in> fst ` set (expected L rest)"
      using ne by auto
    also have "\<dots> \<longleftrightarrow> (\<exists>om' \<in> set rest. fst om < fst om' \<and> collide L (snd om) (snd om'))"
      using Cons.IH[OF srt o] .
    also have "\<dots> \<longleftrightarrow> (\<exists>om' \<in> set (x # rest). fst om < fst om' \<and> collide L (snd om) (snd om'))"
      using less[OF o] by auto
    finally show ?thesis .
  qed
qed

lemma collide_refl: "0 < bands L \<Longrightarrow> collide L m m"
  by (auto simp: collide_iff)

text \<open>The match set of a record: the offset itself, and otherwise only later offsets.\<close>

lemma expected_matches:
  assumes "sorted_wrt (<) (map fst sigs)" and "(offset, M) \<in> set (expected L sigs)"
  shows "(0 < bands L \<longrightarrow> offset \<in> M) \<and> (\<forall>x \<in> M. offset \<le> x) \<and> (\<exists>x \<in> M. offset < x)"
  using assms
proof (induction sigs)
  case Nil
  then show ?case by simp
next
  case (Cons x rest)
  have less: "\<And>y. y \<in> set rest \<Longrightarrow> fst x < fst y" using Cons.prems(1) by auto
  have srt: "sorted_wrt (<) (map fst rest)" using Cons.prems(1) by simp
  show ?case
  proof (cases "(offset, M) \<in> set (expected L rest)")
    case True
    then show ?thesis using Cons.IH[OF srt] by blast
  next
    case False
    have c: "\<exists>om' \<in> set rest. collide L (snd x) (snd om')"
    proof (rule ccontr)
      assume "\<not> (\<exists>om' \<in> set rest. collide L (snd x) (snd om'))"
      then have "expected L (x # rest) = expected L rest" by simp
      with Cons.prems(2) False show False by simp
    qed
    then have "expected L (x # rest)
        = (fst x, set (map fst (filter (\<lambda>om'. collide L (snd x) (snd om')) (x # rest)))) # expected L rest"
      by (simp only: expected.simps if_True)
    with Cons.prems(2) False
    have "(offset, M) = (fst x, set (map fst (filter (\<lambda>om'. collide L (snd x) (snd om')) (x # rest))))"
      by (simp only: set_ConsD) (metis set_ConsD)
    then have o: "offset = fst x"
      and M: "M = fst ` {om' \<in> set (x # rest). collide L (snd x) (snd om')}"
      unfolding matches_set by simp_all
    have 1: "0 < bands L \<longrightarrow> offset \<in> M"
      unfolding o M using collide_refl[of L "snd x"] by force
    have 2: "\<forall>y \<in> M. offset \<le> y"
      unfolding o M using less by force
    have 3: "\<exists>y \<in> M. offset < y"
    proof -
      from c obtain om' where c': "om' \<in> set rest" "collide L (snd x) (snd om')" by blast
      then have "fst om' \<in> M" unfolding M by force
      moreover have "fst x < fst om'" using less[OF c'(1)] .
      ultimately show ?thesis unfolding o by blast
    qed
    show ?thesis using 1 2 3 by blast
  qed
qed

section \<open>Example runs\<close>

lemma collide_aa: "collide (new_MinHashLSH 10 (5, 2) sum_list) sig_a sig_a"
  by (rule collide_refl) (simp add: new_MinHashLSH_def)

lemma Hs_sig_a: "Hs (new_MinHashLSH 10 (5, 2) sum_list) sig_a = [14, 14, 14, 14, 14]"
  by (simp add: Hs_def new_MinHashLSH_def sig_a_def upt_rec)

lemma Hs_sig_b: "Hs (new_MinHashLSH 10 (5, 2) sum_list) sig_b = [3, 7, 11, 15, 19]"
  by (simp add: Hs_def new_MinHashLSH_def sig_b_def upt_rec)

lemma collide_ba: "\<not> collide (new_MinHashLSH 10 (5, 2) sum_list) sig_b sig_a"
  unfolding collide_def Hs_sig_a Hs_sig_b
  by (simp add: new_MinHashLSH_def upt_rec)

lemma expected_cluster:
  "expected (new_MinHashLSH 10 (5, 2) sum_list) example_cluster = [(0, {0, 1, 2}), (1, {1, 2})]"
  by (simp add: example_cluster_def collide_aa)

lemma expected_pair:
  "expected (new_MinHashLSH 10 (5, 2) sum_list) example_pair = [(1, {1, 2})]"
  by (simp add: example_pair_def collide_aa collide_ba)

lemma half_free_ok: "\<forall>n. ensure_disk_space (half_free n) = None"
  by (simp add: ensure_disk_space_def half_free_def)

lemma fresh_directory_fresh:
  "\<not> dedupe_done fresh_directory" "lsh_pkl fresh_directory = None" "events fresh_directory = []"
  by (simp_all add: fresh_directory_def)

lemma well_formed_examples: "well_formed example_cluster" "well_formed example_pair"
  by (simp_all add: well_formed_def example_cluster_def example_pair_def sig_a_def sig_b_def)




section \<open>Which documents the pass records\<close>

text \<open>
  Claim C1, as the code has it. The index is built from the whole stream before the pass, and
  the pass records a document when the query returns an offset other than its own. So in a
  cluster of documents that collide with one another, every member but the last gets exactly
  one record, the first one included; a member with no colliding document after it in the
  stream (the last of a cluster that stands alone) gets none; and no offset ever gets two.
\<close>

theorem cluster_keeps_last:
  assumes wf: "well_formed sigs"
    and fresh: "\<not> dedupe_done dir" "lsh_pkl dir = None" "events dir = []"
    and disk: "\<forall>n. ensure_disk_space (du n) = None"
    and cl: "set cluster \<subseteq> set sigs"
    and mutual: "\<forall>x \<in> set cluster. \<forall>y \<in> set cluster.
                   collide (new_MinHashLSH 10 params H) (snd x) (snd y)"
  shows "fst (dedupe_main sf du params H (stream sigs) dir) = None
         \<and> (\<forall>x \<in> set cluster. (\<exists>y \<in> set cluster. fst x < fst y) \<longrightarrow>
               length (records_for (fst x)
                 (emitted (snd (dedupe_main sf du params H (stream sigs) dir)))) = 1)
         \<and> (\<forall>x \<in> set cluster.
               (\<forall>y \<in> set sigs. fst x < fst y \<longrightarrow> \<not> collide (new_MinHashLSH 10 params H) (snd x) (snd y))
               \<longrightarrow> records_for (fst x)
                     (emitted (snd (dedupe_main sf du params H (stream sigs) dir))) = [])
         \<and> (\<forall>offset. length (records_for offset
                 (emitted (snd (dedupe_main sf du params H (stream sigs) dir)))) \<le> 1)"
proof -
  define L where "L = new_MinHashLSH 10 params H"
  define E where "E = emitted (snd (dedupe_main sf du params H (stream sigs) dir))"
  have ok: "fst (dedupe_main sf du params H (stream sigs) dir) = None"
    and E: "E = expected L sigs"
    using dedupe_main_expected[OF wf fresh disk, of sf params H] by (simp_all add: E_def L_def)
  have srt: "sorted_wrt (<) (map fst sigs)" using wf by (simp add: well_formed_def)
  then have "distinct (map fst sigs)" by (rule sorted_wrt_less_distinct)
  then have dist: "distinct (map fst E)" unfolding E by (rule expected_distinct)
  have 1: "\<forall>x \<in> set cluster. (\<exists>y \<in> set cluster. fst x < fst y) \<longrightarrow> length (records_for (fst x) E) = 1"
  proof (intro ballI impI)
    fix x assume x: "x \<in> set cluster" and "\<exists>y \<in> set cluster. fst x < fst y"
    then obtain y where y: "y \<in> set cluster" "fst x < fst y" by blast
    have "collide L (snd x) (snd y)" using mutual x y(1) by (simp add: L_def)
    moreover have "x \<in> set sigs" "y \<in> set sigs" using cl x y(1) by auto
    ultimately have "fst x \<in> fst ` set E"
      unfolding E using expected_offsets[OF srt, of x L] y(2) by blast
    with dist show "length (records_for (fst x) E) = 1" by (rule records_for_member)
  qed
  have 2: "\<forall>x \<in> set cluster. (\<forall>y \<in> set sigs. fst x < fst y \<longrightarrow> \<not> collide L (snd x) (snd y))
             \<longrightarrow> records_for (fst x) E = []"
  proof (intro ballI impI)
    fix x assume x: "x \<in> set cluster"
      and n: "\<forall>y \<in> set sigs. fst x < fst y \<longrightarrow> \<not> collide L (snd x) (snd y)"
    have "x \<in> set sigs" using cl x by auto
    then have "fst x \<notin> fst ` set E"
      unfolding E using expected_offsets[OF srt, of x L] n by blast
    then show "records_for (fst x) E = []" by (rule records_for_absent)
  qed
  have 3: "\<forall>offset. length (records_for offset E) \<le> 1"
    using records_for_distinct[OF dist] by blast
  show ?thesis using ok 1 2 3 unfolding E_def L_def by blast
qed

theorem cluster_keeps_last_witness:
  "well_formed example_cluster
   \<and> \<not> dedupe_done fresh_directory \<and> lsh_pkl fresh_directory = None \<and> events fresh_directory = []
   \<and> (\<forall>n. ensure_disk_space (half_free n) = None)
   \<and> set example_cluster \<subseteq> set example_cluster
   \<and> collide (new_MinHashLSH 10 (5, 2) sum_list) sig_a sig_a
   \<and> fst (dedupe_main 1000000 half_free (5, 2) sum_list (stream example_cluster) fresh_directory) = None
   \<and> length (records_for 0 (emitted (snd (dedupe_main 1000000 half_free (5, 2) sum_list
          (stream example_cluster) fresh_directory)))) = 1
   \<and> length (records_for 1 (emitted (snd (dedupe_main 1000000 half_free (5, 2) sum_list
          (stream example_cluster) fresh_directory)))) = 1
   \<and> records_for 2 (emitted (snd (dedupe_main 1000000 half_free (5, 2) sum_list
          (stream example_cluster) fresh_directory))) = []"
proof -
  have mutual: "\<forall>x \<in> set example_cluster. \<forall>y \<in> set example_cluster.
      collide (new_MinHashLSH 10 (5, 2) sum_list) (snd x) (snd y)"
    by (simp add: example_cluster_def collide_aa)
  have cl: "set example_cluster \<subseteq> set example_cluster" by simp
  note T = cluster_keeps_last[OF well_formed_examples(1) fresh_directory_fresh half_free_ok cl mutual,
      of 1000000]
  have a: "(0, sig_a) \<in> set example_cluster" "(1, sig_a) \<in> set example_cluster"
    "(2, sig_a) \<in> set example_cluster"
    by (simp_all add: example_cluster_def)
  have "length (records_for (fst (0::nat, sig_a)) (emitted (snd (dedupe_main 1000000 half_free (5, 2) sum_list
          (stream example_cluster) fresh_directory)))) = 1"
    using T a(1) a(2) by (metis fst_conv zero_less_one)
  moreover have "length (records_for (fst (1::nat, sig_a)) (emitted (snd (dedupe_main 1000000 half_free (5, 2) sum_list
          (stream example_cluster) fresh_directory)))) = 1"
    using T a(2) a(3) by (metis fst_conv one_less_numeral_iff semiring_norm(76))
  moreover have "\<forall>y \<in> set example_cluster. fst (2::nat, sig_a) < fst y
       \<longrightarrow> \<not> collide (new_MinHashLSH 10 (5, 2) sum_list) (snd (2::nat, sig_a)) (snd y)"
    by (simp add: example_cluster_def)
  then have "records_for (fst (2::nat, sig_a)) (emitted (snd (dedupe_main 1000000 half_free (5, 2) sum_list
          (stream example_cluster) fresh_directory))) = []"
    using T a(3) by blast
  ultimately show ?thesis
    using T well_formed_examples(1) fresh_directory_fresh half_free_ok collide_aa by simp
qed

text \<open>
  Claim C1 as stated fails: of three documents with one signature, at offsets 0, 1 and 2, the
  pass records 0 and 1 and keeps 2.
\<close>

theorem first_of_cluster_emitted:
  "well_formed example_cluster
   \<and> collide (new_MinHashLSH 10 (5, 2) sum_list) sig_a sig_a
   \<and> fst (dedupe_main 1000000 half_free (5, 2) sum_list (stream example_cluster) fresh_directory) = None
   \<and> emitted (snd (dedupe_main 1000000 half_free (5, 2) sum_list (stream example_cluster) fresh_directory))
       = [(0, {0, 1, 2}), (1, {1, 2})]
   \<and> records_for 0 (emitted (snd (dedupe_main 1000000 half_free (5, 2) sum_list
          (stream example_cluster) fresh_directory))) = [(0, {0, 1, 2})]
   \<and> records_for 2 (emitted (snd (dedupe_main 1000000 half_free (5, 2) sum_list
          (stream example_cluster) fresh_directory))) = []"
  using dedupe_main_expected[OF well_formed_examples(1) fresh_directory_fresh half_free_ok,
      of 1000000 "(5, 2)" sum_list]
  by (simp add: expected_cluster well_formed_examples collide_aa records_for_def)

text \<open>
  Claim C2, as the code has it. In every record \<open>(o, M)\<close> the match set holds \<open>o\<close> itself,
  no smaller offset and at least one larger offset (so its minimum is \<open>o\<close>), and \<open>o\<close> is in
  the match set of no record emitted for a later offset.
\<close>

theorem record_points_forward:
  assumes wf: "well_formed sigs"
    and fresh: "\<not> dedupe_done dir" "lsh_pkl dir = None" "events dir = []"
    and disk: "\<forall>n. ensure_disk_space (du n) = None"
    and bands: "0 < fst params"
    and rec: "(offset, M) \<in> set (emitted (snd (dedupe_main sf du params H (stream sigs) dir)))"
  shows "offset \<in> M \<and> (\<forall>x \<in> M. offset \<le> x) \<and> (\<exists>x \<in> M. offset < x)
         \<and> (\<forall>offset' M'. (offset', M') \<in> set (emitted (snd (dedupe_main sf du params H (stream sigs) dir)))
                \<and> offset < offset' \<longrightarrow> offset \<notin> M')"
proof -
  define L where "L = new_MinHashLSH 10 params H"
  define E where "E = emitted (snd (dedupe_main sf du params H (stream sigs) dir))"
  have E: "E = expected L sigs"
    using dedupe_main_expected(2)[OF wf fresh disk, of sf params H] by (simp add: E_def L_def)
  have srt: "sorted_wrt (<) (map fst sigs)" using wf by (simp add: well_formed_def)
  have b: "0 < bands L" using bands by (simp add: L_def new_MinHashLSH_def)
  have r: "(offset, M) \<in> set (expected L sigs)" using rec E by (simp add: E_def)
  have 1: "offset \<in> M \<and> (\<forall>x \<in> M. offset \<le> x) \<and> (\<exists>x \<in> M. offset < x)"
    using expected_matches[OF srt r] b by blast
  have 2: "\<forall>offset' M'. (offset', M') \<in> set E \<and> offset < offset' \<longrightarrow> offset \<notin> M'"
  proof (intro allI impI)
    fix offset' M'
    assume a: "(offset', M') \<in> set E \<and> offset < offset'"
    then have "(offset', M') \<in> set (expected L sigs)" using E by simp
    from expected_matches[OF srt this] have "\<forall>x \<in> M'. offset' \<le> x" by blast
    with a show "offset \<notin> M'" by auto
  qed
  show ?thesis using 1 2 unfolding E_def by blast
qed

theorem record_points_forward_witness:
  "well_formed example_pair
   \<and> \<not> dedupe_done fresh_directory \<and> lsh_pkl fresh_directory = None \<and> events fresh_directory = []
   \<and> (\<forall>n. ensure_disk_space (half_free n) = None)
   \<and> 0 < fst (5 :: nat, 2 :: nat)
   \<and> (1, {1, 2}) \<in> set (emitted (snd (dedupe_main 1000000 half_free (5, 2) sum_list
          (stream example_pair) fresh_directory)))
   \<and> (1 :: nat) \<in> {1, 2} \<and> (\<exists>x \<in> {1, 2 :: nat}. 1 < x)"
proof -
  have b: "0 < fst (5 :: nat, 2 :: nat)" by simp
  have r: "(1, {1, 2}) \<in> set (emitted (snd (dedupe_main 1000000 half_free (5, 2) sum_list
          (stream example_pair) fresh_directory)))"
    using dedupe_main_expected(2)[OF well_formed_examples(2) fresh_directory_fresh half_free_ok,
      of 1000000 "(5, 2)" sum_list]
    by (simp add: expected_pair)
  show ?thesis
    using record_points_forward[OF well_formed_examples(2) fresh_directory_fresh half_free_ok b r]
      well_formed_examples(2) fresh_directory_fresh half_free_ok r
    by simp
qed

text \<open>
  Claim C2 as stated fails: the record of offset 1 has the match set \<open>{1, 2}\<close>, whose minimum
  is 1 and not below 1; the hit that triggered the record is the larger offset 2.
\<close>

theorem match_set_starts_at_offset:
  "well_formed example_pair
   \<and> fst (dedupe_main 1000000 half_free (5, 2) sum_list (stream example_pair) fresh_directory) = None
   \<and> emitted (snd (dedupe_main 1000000 half_free (5, 2) sum_list (stream example_pair) fresh_directory))
       = [(1, {1, 2})]
   \<and> Min {1, 2 :: nat} = 1 \<and> \<not> Min {1, 2 :: nat} < 1"
  using dedupe_main_expected[OF well_formed_examples(2) fresh_directory_fresh half_free_ok,
      of 1000000 "(5, 2)" sum_list]
  by (simp add: expected_pair well_formed_examples)

section \<open>The order of writes and disk checks\<close>













end
